theory Spec2Isabelle
  imports Complex_Main "HOL-Library.Multiset" "HOL-Library.List_Lexorder"
    "HOL-Library.Product_Lexorder"
begin

section \<open>Python exceptions\<close>

text \<open>The exceptions the modelled code can raise; a function that can raise returns
  \<open>py_error + 'a\<close>, \<open>Inl\<close> carrying the exception.\<close>

datatype py_error = ValueError | UnicodeEncodeError | UnicodeDecodeError | URLError

section \<open>Persistent frontier store (src/storage/state.py)\<close>

text \<open>
  Table \<open>queue\<close> of \<open>StateDB._ensure\<close>:
  \<open>id INTEGER PRIMARY KEY AUTOINCREMENT, url TEXT UNIQUE, depth, source, record_type, added_ts\<close>.
  Column \<open>added_ts\<close> is written by \<open>push\<close> and read by no query of the class, so a row is
  modelled without it.
\<close>

record queue_row =
  row_id :: nat
  row_url :: string
  row_depth :: int
  row_source :: string
  row_record_type :: string

text \<open>
  The database file: the rows of \<open>queue\<close> in the order they were inserted, and the counter SQLite
  keeps for an AUTOINCREMENT key (table \<open>sqlite_sequence\<close>: the largest id handed out so far).
\<close>

record StateDB =
  queue :: "queue_row list"
  seq :: nat

definition fresh_db :: StateDB where
  "fresh_db = \<lparr>queue = [], seq = 0\<rparr>"

text \<open>
  \<open>StateDB.push\<close>: \<open>INSERT OR IGNORE INTO queue(url, depth, source, record_type, added_ts)\<close>.
  A row whose url is already in the table violates \<open>UNIQUE\<close> and is ignored. SQLite draws the
  new id before it checks the constraint, so the counter advances also for an ignored row.
\<close>

definition push :: "string \<Rightarrow> int \<Rightarrow> string \<Rightarrow> string \<Rightarrow> StateDB \<Rightarrow> StateDB" where
  "push u d src rt db =
     (if u \<in> row_url ` set (queue db)
      then db\<lparr>seq := Suc (seq db)\<rparr>
      else db\<lparr>queue := queue db @
                  [\<lparr>row_id = Suc (seq db), row_url = u, row_depth = d,
                    row_source = src, row_record_type = rt\<rparr>],
              seq := Suc (seq db)\<rparr>)"

text \<open>\<open>SELECT ... FROM queue ORDER BY id LIMIT 1\<close>: the row of least id, if there is a row.\<close>

fun first_by_id :: "queue_row list \<Rightarrow> queue_row option" where
  "first_by_id [] = None"
| "first_by_id (r # rs) =
     (case first_by_id rs of
        None \<Rightarrow> Some r
      | Some m \<Rightarrow> if row_id r \<le> row_id m then Some r else Some m)"

text \<open>
  \<open>StateDB.pop\<close>: select the first row by id; none gives \<open>None\<close>; otherwise
  \<open>DELETE FROM queue WHERE id=?\<close> and return \<open>(url, depth, source, record_type)\<close>.
\<close>

type_synonym item = "string \<times> int \<times> string \<times> string"

definition pop :: "StateDB \<Rightarrow> item option \<times> StateDB" where
  "pop db =
     (case first_by_id (queue db) of
        None \<Rightarrow> (None, db)
      | Some r \<Rightarrow>
          (Some (row_url r, row_depth r, row_source r, row_record_type r),
           db\<lparr>queue := filter (\<lambda>x. row_id x \<noteq> row_id r) (queue db)\<rparr>))"

definition item_of :: "queue_row \<Rightarrow> item" where
  "item_of r = (row_url r, row_depth r, row_source r, row_record_type r)"

text \<open>
  A single-process crawl is a sequence of calls on one database. \<open>exec\<close> runs such a sequence
  and logs the row every successful \<open>pop\<close> removed (with its id, which \<open>pop\<close> itself does not
  return; the record keeps it to tell rows apart).
\<close>

datatype db_op = Push string int string string | Pop

fun exec :: "db_op list \<Rightarrow> StateDB \<times> queue_row list \<Rightarrow> StateDB \<times> queue_row list" where
  "exec [] st = st"
| "exec (Push u d src rt # ops) (db, gone) = exec ops (push u d src rt db, gone)"
| "exec (Pop # ops) (db, gone) =
     exec ops (snd (pop db),
               gone @ (case first_by_id (queue db) of None \<Rightarrow> [] | Some r \<Rightarrow> [r]))"

definition reached :: "db_op list \<Rightarrow> StateDB" where
  "reached ops = fst (exec ops (fresh_db, []))"

definition removed :: "db_op list \<Rightarrow> queue_row list" where
  "removed ops = snd (exec ops (fresh_db, []))"

definition delivered :: "db_op list \<Rightarrow> item list" where
  "delivered ops = map item_of (removed ops)"

text \<open>The invariant of a run: ids are bounded by the counter and never repeat, urls in the
  table never repeat.\<close>

definition db_inv :: "StateDB \<times> queue_row list \<Rightarrow> bool" where
  "db_inv st \<longleftrightarrow>
     (\<forall>r \<in> set (queue (fst st)) \<union> set (snd st). row_id r \<le> seq (fst st)) \<and>
     distinct (map row_id (queue (fst st) @ snd st)) \<and>
     distinct (map row_url (queue (fst st)))"

subsection \<open>Facts about the store\<close>

lemma first_by_id_None: "first_by_id rs = None \<longleftrightarrow> rs = []"
  by (induction rs) (auto split: option.splits)

lemma first_by_id_least:
  "first_by_id rs = Some r \<Longrightarrow> r \<in> set rs \<and> (\<forall>x \<in> set rs. row_id r \<le> row_id x)"
proof (induction rs arbitrary: r)
  case Nil
  then show ?case by simp
next
  case (Cons a rs)
  show ?case
  proof (cases "first_by_id rs")
    case None
    then have "rs = []" by (simp add: first_by_id_None)
    with Cons.prems None show ?thesis by simp
  next
    case (Some m)
    from Cons.IH [OF Some] have m: "m \<in> set rs" "\<forall>x \<in> set rs. row_id m \<le> row_id x"
      by simp_all
    show ?thesis
    proof (cases "row_id a \<le> row_id m")
      case True
      with Cons.prems Some have "r = a" by simp
      with True m show ?thesis by auto
    next
      case False
      with Cons.prems Some have "r = m" by simp
      with False m show ?thesis by auto
    qed
  qed
qed

lemma filter_id_remove1:
  "distinct (map row_id rs) \<Longrightarrow> r \<in> set rs \<Longrightarrow>
   filter (\<lambda>x. row_id x \<noteq> row_id r) rs = remove1 r rs"
proof (induction rs)
  case Nil
  then show ?case by simp
next
  case (Cons a rs)
  show ?case
  proof (cases "a = r")
    case True
    from Cons.prems True have "row_id r \<notin> row_id ` set rs" by simp
    then have "\<forall>x \<in> set rs. row_id x \<noteq> row_id r" by (metis image_eqI)
    then have "filter (\<lambda>x. row_id x \<noteq> row_id r) rs = rs" by (simp add: filter_id_conv)
    with True show ?thesis by simp
  next
    case False
    with Cons.prems have "r \<in> set rs" "row_id a \<noteq> row_id r" by auto
    with Cons show ?thesis using False by simp
  qed
qed

lemma pop_fst: "fst (pop db) = map_option item_of (first_by_id (queue db))"
  by (simp add: pop_def item_of_def split: option.splits)

lemma pop_queue:
  "queue (snd (pop db)) =
     (case first_by_id (queue db) of None \<Rightarrow> queue db
      | Some r \<Rightarrow> filter (\<lambda>x. row_id x \<noteq> row_id r) (queue db))"
  by (simp add: pop_def split: option.splits)

lemma pop_seq: "seq (snd (pop db)) = seq db"
  by (simp add: pop_def split: option.splits)

lemma push_inv:
  assumes "db_inv (db, gone)"
  shows "db_inv (push u d src rt db, gone)"
proof (cases "u \<in> row_url ` set (queue db)")
  case True
  then have "push u d src rt db = db\<lparr>seq := Suc (seq db)\<rparr>" by (simp add: push_def)
  with assms show ?thesis by (auto simp: db_inv_def le_SucI)
next
  case False
  let ?r = "\<lparr>row_id = Suc (seq db), row_url = u, row_depth = d,
             row_source = src, row_record_type = rt\<rparr>"
  from False have p: "push u d src rt db = db\<lparr>queue := queue db @ [?r], seq := Suc (seq db)\<rparr>"
    by (simp add: push_def)
  from assms have b: "\<forall>x \<in> set (queue db) \<union> set gone. row_id x \<le> seq db"
    by (simp add: db_inv_def)
  then have n: "Suc (seq db) \<notin> row_id ` (set (queue db) \<union> set gone)" by force
  have "distinct (map row_id ((queue db @ [?r]) @ gone))"
    using assms n by (auto simp: db_inv_def)
  moreover have "distinct (map row_url (queue db @ [?r]))"
    using assms False by (auto simp: db_inv_def)
  moreover have "\<forall>x \<in> set (queue db @ [?r]) \<union> set gone. row_id x \<le> Suc (seq db)"
    using b by (auto simp: le_SucI)
  ultimately show ?thesis by (simp add: p db_inv_def)
qed

lemma pop_inv:
  assumes "db_inv (db, gone)"
  shows "db_inv (snd (pop db),
                 gone @ (case first_by_id (queue db) of None \<Rightarrow> [] | Some r \<Rightarrow> [r]))"
proof (cases "first_by_id (queue db)")
  case None
  with assms show ?thesis by (simp add: db_inv_def pop_def)
next
  case (Some r)
  then have r: "r \<in> set (queue db)" using first_by_id_least by blast
  from assms have d: "distinct (map row_id (queue db))" by (simp add: db_inv_def)
  have q: "queue (snd (pop db)) = remove1 r (queue db)"
    using Some filter_id_remove1 [OF d r] by (simp add: pop_queue)
  have s: "set (remove1 r (queue db)) \<subseteq> set (queue db)" by (rule set_remove1_subset)
  have "mset (remove1 r (queue db) @ gone @ [r]) = mset (queue db @ gone)"
    using r by simp
  then have m: "mset (map row_id (remove1 r (queue db) @ gone @ [r])) = mset (map row_id (queue db @ gone))"
    by (metis mset_map)
  have "distinct (map row_id (remove1 r (queue db) @ gone @ [r]))"
    using assms mset_eq_imp_distinct_iff [OF m] by (simp add: db_inv_def)
  moreover have "distinct (map row_url (remove1 r (queue db)))"
    using assms distinct_map_filter [of row_url "queue db" "\<lambda>x. row_id x \<noteq> row_id r"]
    by (simp add: db_inv_def filter_id_remove1 [OF d r])
  moreover have "\<forall>x \<in> set (remove1 r (queue db)) \<union> set (gone @ [r]). row_id x \<le> seq db"
    using assms r s by (auto simp: db_inv_def)
  ultimately show ?thesis using Some q by (simp add: db_inv_def pop_seq)
qed

lemma exec_inv: "db_inv st \<Longrightarrow> db_inv (exec ops st)"
proof (induction ops st rule: exec.induct)
  case (1 st)
  then show ?case by simp
next
  case (2 u d src rt ops db gone)
  then show ?case by (simp add: push_inv)
next
  case (3 ops db gone)
  then show ?case by (simp add: pop_inv)
qed

lemma fresh_inv: "db_inv (fresh_db, [])"
  by (simp add: db_inv_def fresh_db_def)

lemma reached_inv: "db_inv (reached ops, removed ops)"
  using exec_inv [OF fresh_inv, of ops] by (simp add: reached_def removed_def)

text \<open>Ids grow along the table: the row of least id is the row that was inserted first.\<close>

definition id_ordered :: "StateDB \<Rightarrow> bool" where
  "id_ordered db \<longleftrightarrow>
     sorted_wrt (<) (map row_id (queue db)) \<and> (\<forall>r \<in> set (queue db). row_id r \<le> seq db)"

lemma push_ordered: "id_ordered db \<Longrightarrow> id_ordered (push u d src rt db)"
  by (auto simp: id_ordered_def push_def sorted_wrt_append le_SucI less_Suc_eq_le)

lemma pop_ordered: "id_ordered db \<Longrightarrow> id_ordered (snd (pop db))"
  by (auto simp: id_ordered_def pop_def sorted_wrt_filter sorted_wrt_map split: option.splits)

lemma exec_ordered: "id_ordered (fst st) \<Longrightarrow> id_ordered (fst (exec ops st))"
proof (induction ops st rule: exec.induct)
  case (1 st)
  then show ?case by simp
next
  case (2 u d src rt ops db gone)
  then show ?case by (simp add: push_ordered)
next
  case (3 ops db gone)
  then show ?case by (simp add: pop_ordered)
qed

lemma reached_ordered: "id_ordered (reached ops)"
  using exec_ordered [of "(fresh_db, [])" ops]
  by (simp add: reached_def id_ordered_def fresh_db_def)

lemma first_by_id_hd:
  "sorted_wrt (<) (map row_id rs) \<Longrightarrow> rs \<noteq> [] \<Longrightarrow> first_by_id rs = Some (hd rs)"
proof (induction rs)
  case Nil
  then show ?case by simp
next
  case (Cons a rs)
  show ?case
  proof (cases rs)
    case Nil
    then show ?thesis by simp
  next
    case (Cons b bs)
    with Cons.prems Cons.IH have "first_by_id rs = Some b" "row_id a < row_id b" by auto
    then show ?thesis by simp
  qed
qed

lemma distinct_url_once:
  "distinct (map row_url rs) \<Longrightarrow> u \<in> row_url ` set rs \<Longrightarrow>
   length (filter (\<lambda>r. row_url r = u) rs) = 1"
proof (induction rs)
  case Nil
  then show ?case by simp
next
  case (Cons a rs)
  show ?case
  proof (cases "row_url a = u")
    case True
    with Cons.prems have "\<forall>r \<in> set rs. row_url r \<noteq> u" by (metis distinct.simps(2) image_eqI list.simps(9) set_map)
    then have "filter (\<lambda>r. row_url r = u) rs = []" by (simp add: filter_empty_conv)
    with True show ?thesis by simp
  next
    case False
    with Cons show ?thesis by auto
  qed
qed

subsection \<open>Claims about the store\<close>

text \<open>
  Claim C4. \<open>pop\<close> on a store with no row returns none and changes nothing. In every state a
  single-process run can reach, \<open>pop\<close> on a non-empty store returns the row that was inserted
  first among the rows present, that row has the least id, and exactly that row leaves the
  table. Over a whole run no row is removed twice, so an enqueued item is handed out at most once.
\<close>

theorem pop_oldest_first:
  "(queue db = [] \<longrightarrow> pop db = (None, db)) \<and>
   (queue (reached ops) \<noteq> [] \<longrightarrow>
      fst (pop (reached ops)) = Some (item_of (hd (queue (reached ops)))) \<and>
      (\<forall>x \<in> set (queue (reached ops)). row_id (hd (queue (reached ops))) \<le> row_id x) \<and>
      queue (snd (pop (reached ops))) = tl (queue (reached ops))) \<and>
   distinct (map row_id (removed ops))"
proof (intro conjI impI)
  assume "queue db = []"
  then show "pop db = (None, db)" by (simp add: pop_def)
next
  assume ne: "queue (reached ops) \<noteq> []"
  let ?q = "queue (reached ops)"
  have so: "sorted_wrt (<) (map row_id ?q)"
    using reached_ordered [of ops] by (simp add: id_ordered_def)
  have f: "first_by_id ?q = Some (hd ?q)" by (rule first_by_id_hd [OF so ne])
  show "fst (pop (reached ops)) = Some (item_of (hd ?q))" by (simp add: pop_fst f)
  show "\<forall>x \<in> set ?q. row_id (hd ?q) \<le> row_id x" using first_by_id_least [OF f] by simp
  have d: "distinct (map row_id ?q)" using reached_inv [of ops] by (simp add: db_inv_def)
  have "hd ?q \<in> set ?q" using ne by simp
  from filter_id_remove1 [OF d this] have "queue (snd (pop (reached ops))) = remove1 (hd ?q) ?q"
    by (simp add: pop_queue f)
  also have "\<dots> = tl ?q" using ne by (cases ?q) simp_all
  finally show "queue (snd (pop (reached ops))) = tl ?q" .
next
  show "distinct (map row_id (removed ops))"
    using reached_inv [of ops] by (simp add: db_inv_def)
qed

theorem pop_oldest_first_witness:
  "queue (reached [Push ''http://a.example/x'' 0 ''a.example'' ''news'',
                   Push ''http://a.example/y'' 1 ''a.example'' ''news'']) \<noteq> [] \<and>
   fst (pop (reached [Push ''http://a.example/x'' 0 ''a.example'' ''news'',
                      Push ''http://a.example/y'' 1 ''a.example'' ''news''])) =
     Some (''http://a.example/x'', 0, ''a.example'', ''news'') \<and>
   map row_url (queue (snd (pop (reached [Push ''http://a.example/x'' 0 ''a.example'' ''news'',
                      Push ''http://a.example/y'' 1 ''a.example'' ''news''])))) =
     [''http://a.example/y''] \<and>
   pop fresh_db = (None, fresh_db)"
  using pop_oldest_first [of fresh_db "[Push ''http://a.example/x'' 0 ''a.example'' ''news'',
                   Push ''http://a.example/y'' 1 ''a.example'' ''news'']"]
  by (simp add: reached_def push_def fresh_db_def item_of_def)

text \<open>
  Claim C3, as the code has it. The table never holds two rows with the same url. Right after
  a \<open>push\<close> of \<open>u\<close> exactly one row carries \<open>u\<close>, and a \<open>push\<close> of a url that is in the table leaves
  the rows as they are (insert-or-ignore). Uniqueness covers the rows present only: \<open>pop\<close>
  deletes the row, and a later \<open>push\<close> of the same url inserts it again.
\<close>

theorem push_unique_while_queued:
  "distinct (map row_url (queue (reached ops))) \<and>
   length (filter (\<lambda>r. row_url r = u) (queue (push u d src rt (reached ops)))) = 1 \<and>
   (u \<in> row_url ` set (queue (reached ops)) \<longrightarrow>
      queue (push u d2 src2 rt2 (reached ops)) = queue (reached ops))"
proof (intro conjI impI)
  show "distinct (map row_url (queue (reached ops)))"
    using reached_inv [of ops] by (simp add: db_inv_def)
next
  have "db_inv (push u d src rt (reached ops), removed ops)"
    by (rule push_inv [OF reached_inv])
  then have d: "distinct (map row_url (queue (push u d src rt (reached ops))))"
    by (simp add: db_inv_def)
  have m: "u \<in> row_url ` set (queue (push u d src rt (reached ops)))"
    by (auto simp: push_def)
  show "length (filter (\<lambda>r. row_url r = u) (queue (push u d src rt (reached ops)))) = 1"
    by (rule distinct_url_once [OF d m])
next
  assume "u \<in> row_url ` set (queue (reached ops))"
  then show "queue (push u d2 src2 rt2 (reached ops)) = queue (reached ops)"
    by (simp add: push_def)
qed

theorem push_unique_while_queued_witness:
  "''http://a.example/x'' \<in> row_url ` set (queue (reached [Push ''http://a.example/x'' 0 ''a.example'' ''news''])) \<and>
   queue (push ''http://a.example/x'' 1 ''b'' ''news''
           (reached [Push ''http://a.example/x'' 0 ''a.example'' ''news''])) =
   queue (reached [Push ''http://a.example/x'' 0 ''a.example'' ''news''])"
  using push_unique_while_queued [of "[Push ''http://a.example/x'' 0 ''a.example'' ''news'']"
          "''http://a.example/x''" 0 "''a.example''" "''news''" 1 "''b''" "''news''"]
  by (simp add: reached_def push_def fresh_db_def)

text \<open>
  Claim C3 as stated fails: a url pushed, popped, pushed again and popped again is dequeued
  twice.
\<close>

theorem url_dequeued_twice:
  "\<not> distinct (map fst (delivered
      [Push ''http://a.example/x'' 0 ''a.example'' ''news'', Pop,
       Push ''http://a.example/x'' 1 ''a.example'' ''news'', Pop]))"
  by (simp add: delivered_def removed_def push_def pop_def fresh_db_def item_of_def)

section \<open>Fetcher (src/crawler/downloader.py)\<close>

text \<open>Constants of src/config.py. \<open>BACKOFF_BASE = 1.8\<close>; Python floats are modelled by reals.\<close>

definition RETRY_MAX :: nat where
  "RETRY_MAX = 3"

definition BACKOFF_BASE :: real where
  "BACKOFF_BASE = 18 / 10"

text \<open>
  What one call \<open>session.get(url, ...)\<close> can give \<open>fetch\<close>: a response, of which \<open>fetch\<close> reads
  the status code, the header \<open>Retry-After\<close> (\<open>None\<close> when absent), the final url and the text;
  or one of the two exceptions the loop catches.
\<close>

record response =
  resp_status :: int
  resp_retry_after :: "string option"
  resp_url :: string
  resp_text :: string

datatype outcome = Resp response | Timeout | RequestException

text \<open>
  The \<open>while attempt <= RETRY_MAX\<close> loop of \<open>fetch\<close>. Every pass that does not return adds one
  to \<open>attempt\<close>, so the pass with counter \<open>attempt\<close> sees the outcome \<open>srv attempt\<close> of the call
  number \<open>attempt\<close>. \<open>pyfloat\<close> stands for Python's \<open>float\<close> on a string (\<open>None\<close> where it raises
  \<open>ValueError\<close>). The function returns what \<open>fetch\<close> returns (\<open>None\<close> for the tuple of three
  \<open>None\<close>) together with the arguments of its \<open>time.sleep\<close> calls, in order.
\<close>

function fetch_loop ::
  "(string \<Rightarrow> real option) \<Rightarrow> (nat \<Rightarrow> outcome) \<Rightarrow> nat \<Rightarrow> real \<Rightarrow> real list \<Rightarrow>
   (int \<times> string \<times> string) option \<times> real list" where
  "fetch_loop pyfloat srv attempt backoff sleeps =
     (if attempt \<le> RETRY_MAX then
        (let sleeps1 = (if backoff > 0 then sleeps @ [backoff] else sleeps) in
         case srv attempt of
           Resp resp \<Rightarrow>
             (let code = resp_status resp in
              if 200 \<le> code \<and> code < 300 then
                (Some (code, resp_url resp, resp_text resp), sleeps1)
              else if code \<in> {429, 503, 502, 500, 408} then
                (let backoff1 =
                       (case resp_retry_after resp of
                          None \<Rightarrow> backoff
                        | Some ra \<Rightarrow>
                            if ra = [] then backoff
                            else (case pyfloat ra of
                                    Some v \<Rightarrow> max v backoff
                                  | None \<Rightarrow> backoff));
                     attempt1 = attempt + 1;
                     backoff2 = max 1 (BACKOFF_BASE ^ attempt1)
                 in fetch_loop pyfloat srv attempt1 backoff2 sleeps1)
              else if 300 \<le> code \<and> code < 400 then
                (Some (code, resp_url resp, resp_text resp), sleeps1)
              else
                (Some (code, resp_url resp, resp_text resp), sleeps1))
         | Timeout \<Rightarrow>
             fetch_loop pyfloat srv (attempt + 1) (max 1 (BACKOFF_BASE ^ (attempt + 1))) sleeps1
         | RequestException \<Rightarrow>
             fetch_loop pyfloat srv (attempt + 1) (max 1 (BACKOFF_BASE ^ (attempt + 1))) sleeps1)
      else (None, sleeps))"
  by pat_completeness auto
termination
  by (relation "measure (\<lambda>(pyfloat, srv, attempt, backoff, sleeps). Suc RETRY_MAX - attempt)") auto

definition fetch ::
  "(string \<Rightarrow> real option) \<Rightarrow> (nat \<Rightarrow> outcome) \<Rightarrow> (int \<times> string \<times> string) option \<times> real list" where
  "fetch pyfloat srv = fetch_loop pyfloat srv 0 0 []"

text \<open>An endpoint that answers 503 with \<open>Retry-After: 120\<close> once and 200 afterwards.\<close>

definition busy_once :: "nat \<Rightarrow> outcome" where
  "busy_once n =
     (if n = 0
      then Resp \<lparr>resp_status = 503, resp_retry_after = Some ''120'',
                 resp_url = ''http://a.example/x'', resp_text = []\<rparr>
      else Resp \<lparr>resp_status = 200, resp_retry_after = None,
                 resp_url = ''http://a.example/x'', resp_text = ''ok''\<rparr>)"

subsection \<open>Facts about the fetcher\<close>

declare fetch_loop.simps [simp del]

text \<open>
  The value taken from \<open>Retry-After\<close> is overwritten before it is used: the result and the
  sleeps of the loop do not depend on how the header is read.
\<close>

lemma fetch_loop_ignores_header:
  "fetch_loop pyfloat srv attempt backoff sleeps = fetch_loop (\<lambda>_. None) srv attempt backoff sleeps"
proof (induction pyfloat srv attempt backoff sleeps rule: fetch_loop.induct)
  case (1 pyfloat srv attempt backoff sleeps)
  show ?case
  proof (cases "attempt \<le> RETRY_MAX")
    case False
    then show ?thesis by (simp add: fetch_loop.simps [of _ srv attempt])
  next
    case True
    show ?thesis
    proof (cases "srv attempt")
      case (Resp resp)
      show ?thesis
      proof (cases "\<not> (200 \<le> resp_status resp \<and> resp_status resp < 300) \<and>
                    resp_status resp \<in> {429, 503, 502, 500, 408}")
        case False
        with True Resp show ?thesis
          by (auto simp: fetch_loop.simps [of _ srv attempt] Let_def)
      next
        case retry: True
        with True Resp "1.IH"(1) [OF True refl Resp refl _ _ refl refl refl]
        show ?thesis
          by (auto simp: fetch_loop.simps [of _ srv attempt] Let_def)
      qed
    next
      case Timeout
      with True "1.IH"(2) [OF True refl Timeout] show ?thesis
        by (simp add: fetch_loop.simps [of _ srv attempt] Let_def)
    next
      case RequestException
      with True "1.IH"(3) [OF True refl RequestException] show ?thesis
        by (simp add: fetch_loop.simps [of _ srv attempt] Let_def)
    qed
  qed
qed

text \<open>
  Claim C2 fails on the code. The first attempt gets 503 with \<open>Retry-After: 120\<close>; the one sleep
  of the run, before the second attempt, is \<open>max(1.0, 1.8 ** 1) = 1.8\<close> seconds, whatever
  \<open>float\<close> makes of the header, and \<open>1.8 < 120\<close>.
\<close>

theorem retry_after_overwritten:
  "fetch pyfloat busy_once = (Some (200, ''http://a.example/x'', ''ok''), [18 / 10]) \<and>
   (18 / 10 :: real) < 120"
  by (simp add: fetch_def fetch_loop.simps busy_once_def RETRY_MAX_def BACKOFF_BASE_def)

section \<open>Token-overlap scorer (src/classify/score_and_label.py)\<close>

text \<open>
  \<open>tokens.split()\<close>: Python splits at runs of whitespace and returns no empty piece. For the
  code points below 256 that \<open>char\<close> covers, \<open>str.isspace\<close> holds of 9 to 13, 28 to 32, 133
  and 160.
\<close>

definition isspace :: "char \<Rightarrow> bool" where
  "isspace c \<longleftrightarrow> (of_char c :: nat) \<in> {9, 10, 11, 12, 13, 28, 29, 30, 31, 32, 133, 160}"

fun split_from :: "string \<Rightarrow> string \<Rightarrow> string list" where
  "split_from cur [] = (if cur = [] then [] else [cur])"
| "split_from cur (c # cs) =
     (if isspace c
      then (if cur = [] then split_from [] cs else cur # split_from [] cs)
      else split_from (cur @ [c]) cs)"

definition split :: "string \<Rightarrow> string list" where
  "split s = split_from [] s"

text \<open>\<open>tokens_to_ngrams\<close>: every token, then \<open>tokens[i] + " " + tokens[i+1]\<close> for
  \<open>i\<close> in \<open>range(len(tokens) - 1)\<close>.\<close>

definition tokens_to_ngrams :: "string list \<Rightarrow> string list" where
  "tokens_to_ngrams tokens =
     tokens @ map (\<lambda>i. tokens ! i @ '' '' @ tokens ! (i + 1)) [0 ..< length tokens - 1]"

text \<open>The inner loop of \<open>score_row\<close>: \<open>s = 0.0\<close>, and \<open>s += weights[g]\<close> for each gram in
  \<open>weights\<close>. Floats are modelled by reals.\<close>

definition gram_sum :: "(string \<rightharpoonup> real) \<Rightarrow> string list \<Rightarrow> real" where
  "gram_sum weights grams =
     fold (\<lambda>g s. case weights g of Some w \<Rightarrow> s + w | None \<Rightarrow> s) grams 0"

text \<open>
  \<open>score_row\<close>. The lexicon is a dictionary read in its insertion order, hence a list of
  (category, weights). \<open>scores.sort(key=lambda x: x[1], reverse=True)\<close> is a stable sort by
  falling score. \<open>scores[0]\<close> is read only after \<open>if not scores: return "", []\<close>.
\<close>

definition score_row ::
  "string \<Rightarrow> (string \<times> (string \<rightharpoonup> real)) list \<Rightarrow> string \<times> (string \<times> real) list" where
  "score_row tokens lexicon =
     (let toks = split tokens;
          grams = tokens_to_ngrams toks;
          scores = concat (map (\<lambda>(c, weights).
                      (let s = gram_sum weights grams in if s > 0 then [(c, s)] else []))
                    lexicon)
      in if scores = [] then ([], [])
         else (let scores1 = sort_key (\<lambda>x. - snd x) scores
               in (fst (hd scores1), take 3 scores1)))"

text \<open>The sum a category of the lexicon gets for a token string.\<close>

definition category_sum :: "string \<Rightarrow> (string \<rightharpoonup> real) \<Rightarrow> real" where
  "category_sum tokens weights = gram_sum weights (tokens_to_ngrams (split tokens))"

definition sample_lexicon :: "(string \<times> (string \<rightharpoonup> real)) list" where
  "sample_lexicon =
     [(''grain'', [''wheat'' \<mapsto> 3]),
      (''oil'', [''oil'' \<mapsto> 2, ''oil price'' \<mapsto> 1])]"

subsection \<open>Facts about the scorer\<close>

lemma positive_scores_set:
  "set (concat (map (\<lambda>(c, weights).
          (let s = gram_sum weights grams in if s > 0 then [(c, s)] else [])) lexicon)) =
   {(c, gram_sum w grams) | c w. (c, w) \<in> set lexicon \<and> gram_sum w grams > 0}"
  by (induction lexicon) (auto simp: Let_def)

lemma hd_sort_key_least:
  assumes "xs \<noteq> []" and "y \<in> set xs"
  shows "f (hd (sort_key f xs)) \<le> f y"
proof -
  have ne: "sort_key f xs \<noteq> []" using assms(1) by (metis length_sort length_0_conv)
  then obtain a as where a: "sort_key f xs = a # as" by (cases "sort_key f xs") auto
  have "sorted (map f (a # as))" using sorted_sort_key [of f xs] by (simp add: a)
  moreover have "y \<in> set (a # as)" using assms(2) set_sort [of f xs] by (simp add: a)
  ultimately show ?thesis by (auto simp: a)
qed

lemma hd_sort_key_mem: "xs \<noteq> [] \<Longrightarrow> hd (sort_key f xs) \<in> set xs"
  by (metis hd_in_set length_0_conv length_sort set_sort)

text \<open>
  Claim C9. \<open>score_row\<close> returns the empty label together with the empty list exactly when no
  category of the lexicon has a strictly positive sum of matched gram weights. Otherwise the
  list is not empty and the label is a category of the lexicon whose sum is positive and at
  least the sum of every category.
\<close>

theorem score_row_empty_iff_no_positive:
  "(score_row tokens lexicon = ([], []) \<longleftrightarrow>
      (\<forall>(c, w) \<in> set lexicon. \<not> category_sum tokens w > 0)) \<and>
   ((\<exists>(c, w) \<in> set lexicon. category_sum tokens w > 0) \<longrightarrow>
      snd (score_row tokens lexicon) \<noteq> [] \<and>
      (\<exists>(c, w) \<in> set lexicon.
          fst (score_row tokens lexicon) = c \<and> category_sum tokens w > 0 \<and>
          (\<forall>(c', w') \<in> set lexicon. category_sum tokens w' \<le> category_sum tokens w)))"
proof -
  define grams where "grams = tokens_to_ngrams (split tokens)"
  define scores where "scores = concat (map (\<lambda>(c, weights).
          (let s = gram_sum weights grams in if s > 0 then [(c, s)] else [])) lexicon)"
  define scores1 where "scores1 = sort_key (\<lambda>x. - snd x) scores"
  have S: "set scores = {(c, gram_sum w grams) | c w. (c, w) \<in> set lexicon \<and> gram_sum w grams > 0}"
    unfolding scores_def by (rule positive_scores_set)
  have R: "score_row tokens lexicon =
             (if scores = [] then ([], []) else (fst (hd scores1), take 3 scores1))"
    by (simp add: score_row_def Let_def grams_def scores_def scores1_def)
  have cs: "\<And>w. category_sum tokens w = gram_sum w grams"
    by (simp add: category_sum_def grams_def)
  have empty_iff: "scores = [] \<longleftrightarrow> (\<forall>(c, w) \<in> set lexicon. \<not> gram_sum w grams > 0)"
  proof
    assume "scores = []"
    then have "set scores = {}" by simp
    with S show "\<forall>(c, w) \<in> set lexicon. \<not> gram_sum w grams > 0" by auto
  next
    assume "\<forall>(c, w) \<in> set lexicon. \<not> gram_sum w grams > 0"
    with S have "set scores = {}" by auto
    then show "scores = []" by simp
  qed
  have ne1: "scores \<noteq> [] \<Longrightarrow> scores1 \<noteq> []"
    unfolding scores1_def by (metis length_sort length_0_conv)
  have first: "score_row tokens lexicon = ([], []) \<longleftrightarrow> scores = []"
  proof (cases "scores = []")
    case True
    then show ?thesis by (simp add: R)
  next
    case False
    with ne1 have "take 3 scores1 \<noteq> []" by simp
    with False show ?thesis by (simp add: R)
  qed
  have second: "snd (score_row tokens lexicon) \<noteq> [] \<and>
      (\<exists>(c, w) \<in> set lexicon.
          fst (score_row tokens lexicon) = c \<and> gram_sum w grams > 0 \<and>
          (\<forall>(c', w') \<in> set lexicon. gram_sum w' grams \<le> gram_sum w grams))"
    if pos: "\<exists>(c, w) \<in> set lexicon. gram_sum w grams > 0"
  proof -
    from pos empty_iff have ne: "scores \<noteq> []" by blast
    have "hd scores1 \<in> set scores"
      unfolding scores1_def by (rule hd_sort_key_mem [OF ne])
    with S obtain c w where cw: "hd scores1 = (c, gram_sum w grams)" "(c, w) \<in> set lexicon"
      "gram_sum w grams > 0" by auto
    have top: "gram_sum w' grams \<le> gram_sum w grams" if m: "(c', w') \<in> set lexicon" for c' w'
    proof (cases "gram_sum w' grams > 0")
      case True
      with m S have "(c', gram_sum w' grams) \<in> set scores" by auto
      from hd_sort_key_least [OF ne this, of "\<lambda>x. - snd x"] show ?thesis
        by (simp add: scores1_def [symmetric] cw(1))
    next
      case False
      with cw(3) show ?thesis by simp
    qed
    have "snd (score_row tokens lexicon) \<noteq> []" using ne ne1 by (simp add: R)
    moreover have "fst (score_row tokens lexicon) = c" using ne by (simp add: R cw(1))
    ultimately show ?thesis using cw(2,3) top by blast
  qed
  show ?thesis
    unfolding cs using first empty_iff second by blast
qed

theorem score_row_empty_iff_no_positive_witness:
  "(\<exists>(c, w) \<in> set sample_lexicon. category_sum ''oil price  up'' w > 0) \<and>
   score_row ''oil price  up'' sample_lexicon = (''oil'', [(''oil'', 3)]) \<and>
   \<not> (\<exists>(c, w) \<in> set sample_lexicon. category_sum ''gold'' w > 0) \<and>
   score_row ''gold'' sample_lexicon = ([], [])"
  using score_row_empty_iff_no_positive [of "''oil price  up''" sample_lexicon]
        score_row_empty_iff_no_positive [of "''gold''" sample_lexicon]
  by (simp add: score_row_def category_sum_def gram_sum_def tokens_to_ngrams_def split_def
        isspace_def sample_lexicon_def upt_rec)

section \<open>Rate limiting session (src/utils/polite_fetch.py)\<close>

text \<open>
  The fields of \<open>PoliteSession\<close> that pacing and backoff read or write. The clock, the random
  jitter and the network are inputs of the model; floats are modelled by reals.
\<close>

record PoliteSession =
  ps_max_retries :: nat
  ps_backoff_base :: real
  ps_jitter :: real
  ps_min_interval :: real
  ps_max_extra_delay :: real
  ps_last_request_ts :: "string \<rightharpoonup> real"
  ps_domain_delay :: "string \<rightharpoonup> real"
  ps_adaptive_extra :: "string \<rightharpoonup> real"

text \<open>The dataclass defaults.\<close>

definition new_session :: PoliteSession where
  "new_session =
     \<lparr>ps_max_retries = 4, ps_backoff_base = 16 / 10, ps_jitter = 3 / 10,
      ps_min_interval = 1, ps_max_extra_delay = 10,
      ps_last_request_ts = Map.empty, ps_domain_delay = Map.empty,
      ps_adaptive_extra = Map.empty\<rparr>"

text \<open>\<open>self.adaptive_extra.get(netloc, 0.0)\<close>.\<close>

definition extra_of :: "PoliteSession \<Rightarrow> string \<Rightarrow> real" where
  "extra_of s netloc = (case ps_adaptive_extra s netloc of None \<Rightarrow> 0 | Some e \<Rightarrow> e)"

text \<open>
  \<open>_effective_delay\<close>. \<open>cdt netloc\<close> is the value of \<open>self._crawl_delay_from_text(netloc)\<close>,
  which is the same on every call of one session because the robots text is fetched once and
  cached. \<open>x or base\<close> takes \<open>base\<close> when \<open>x\<close> is \<open>None\<close> or \<open>0.0\<close>. The call stores the delay
  of a domain it has not seen, so it returns the session with the delay.
\<close>

definition effective_delay ::
  "(string \<Rightarrow> real option) \<Rightarrow> string \<Rightarrow> PoliteSession \<Rightarrow> real \<times> PoliteSession" where
  "effective_delay cdt netloc s =
     (let base = ps_min_interval s in
      case ps_domain_delay s netloc of
        None \<Rightarrow>
          (let cd = (case cdt netloc of
                       None \<Rightarrow> base
                     | Some v \<Rightarrow> if v = 0 then base else v);
               s1 = s\<lparr>ps_domain_delay := (ps_domain_delay s)(netloc \<mapsto> max cd base)\<rparr>;
               extra = min (extra_of s1 netloc) (ps_max_extra_delay s1)
           in (max base cd + extra, s1))
      | Some cd \<Rightarrow>
          (let extra = min (extra_of s netloc) (ps_max_extra_delay s)
           in (max base cd + extra, s)))"

text \<open>
  \<open>self.session.get\<close>. \<open>__post_init__\<close> mounts, for \<open>http://\<close> and \<open>https://\<close>, an \<open>HTTPAdapter\<close> with
  \<open>Retry(total=5, status_forcelist=[429, 500, 502, 503, 504], allowed_methods=["GET", "POST"],
  backoff_factor=1)\<close>; \<open>raise_on_status\<close> keeps its default \<open>True\<close>. For one call the adapter
  sends the request, and sends it again when the status of the reply is in the list or the
  transport failed, as long as retries are left. A reply with another status is the
  response of the call. When the retries are used up the call raises \<open>RetryError\<close> or
  \<open>ConnectionError\<close>, both a \<open>RequestException\<close>. \<open>srv k\<close> is what the origin does with request
  number \<open>k\<close> of the call.
\<close>

definition status_forcelist :: "int list" where
  "status_forcelist = [429, 500, 502, 503, 504]"

datatype reply = Reply int "string option" | TransportError

datatype http_result = Response int "string option" | RequestError

fun session_get :: "nat \<Rightarrow> (nat \<Rightarrow> reply) \<Rightarrow> nat \<Rightarrow> http_result" where
  "session_get 0 srv k =
     (case srv k of
        Reply status h \<Rightarrow> if status \<in> set status_forcelist then RequestError else Response status h
      | TransportError \<Rightarrow> RequestError)"
| "session_get (Suc retries) srv k =
     (case srv k of
        Reply status h \<Rightarrow>
          if status \<in> set status_forcelist then session_get retries srv (Suc k)
          else Response status h
      | TransportError \<Rightarrow> session_get retries srv (Suc k))"

text \<open>
  One pass of the \<open>for attempt in range(self.max_retries + 1)\<close> loop of \<open>get\<close>. Its inputs:
  the jitter drawn before the request, the replies of the origin to the requests of
  \<open>self.session.get\<close>, the clock read after the response, and the jitter drawn for a backoff.
  \<open>pyint\<close> stands for Python's \<open>int\<close> on a string (\<open>None\<close> where it raises \<open>ValueError\<close>).
  \<open>time.sleep\<close> raises \<open>ValueError\<close> on a negative argument; otherwise sleeping changes nothing
  the session holds.
\<close>

record attempt_io =
  io_jitter :: real
  io_replies :: "nat \<Rightarrow> reply"
  io_clock :: real
  io_backoff_jitter :: real

datatype step_result = Return "int option" | Continue | Raise py_error

definition attempt_step ::
  "(string \<Rightarrow> int option) \<Rightarrow> string \<Rightarrow> nat \<Rightarrow> PoliteSession \<Rightarrow> attempt_io \<Rightarrow>
   PoliteSession \<times> step_result" where
  "attempt_step pyint netloc attempt s io =
     (if io_jitter io < 0 then (s, Raise ValueError)
      else case session_get 5 (io_replies io) 0 of
        RequestError \<Rightarrow>
          (let backoff = ps_backoff_base s ^ attempt + io_backoff_jitter io
           in if backoff < 0 then (s, Raise ValueError) else (s, Continue))
      | Response status retry_after_header \<Rightarrow>
          (let s1 = s\<lparr>ps_last_request_ts := (ps_last_request_ts s)(netloc \<mapsto> io_clock io)\<rparr> in
           if status = 200 then
             (s1\<lparr>ps_adaptive_extra :=
                   (ps_adaptive_extra s1)(netloc \<mapsto> max 0 (extra_of s1 netloc - 1 / 2))\<rparr>,
              Return (Some status))
           else if status = 429 then
             (case (case retry_after_header of None \<Rightarrow> Some 30 | Some h \<Rightarrow> pyint h) of
                None \<Rightarrow> (s1, Raise ValueError)
              | Some retry_after \<Rightarrow>
                  if retry_after < 0 then (s1, Raise ValueError)
                  else (s1\<lparr>ps_adaptive_extra :=
                             (ps_adaptive_extra s1)
                               (netloc \<mapsto> min (ps_max_extra_delay s1) (extra_of s1 netloc + 2))\<rparr>,
                        Continue))
           else if status \<ge> 500 then
             (let backoff = ps_backoff_base s1 ^ attempt + io_backoff_jitter io
              in if backoff < 0 then (s1, Raise ValueError) else (s1, Continue))
           else (s1, Return None)))"

text \<open>The loop: \<open>left\<close> passes remain, the next has counter \<open>attempt\<close> and the inputs
  \<open>script attempt\<close>. After the last pass \<open>get\<close> gives up and returns \<open>None\<close>.\<close>

fun get_loop ::
  "(string \<Rightarrow> int option) \<Rightarrow> string \<Rightarrow> (nat \<Rightarrow> attempt_io) \<Rightarrow> nat \<Rightarrow> nat \<Rightarrow> PoliteSession \<Rightarrow>
   PoliteSession \<times> step_result" where
  "get_loop pyint netloc script 0 attempt s = (s, Return None)"
| "get_loop pyint netloc script (Suc left) attempt s =
     (case attempt_step pyint netloc attempt s (script attempt) of
        (s1, Continue) \<Rightarrow> get_loop pyint netloc script left (Suc attempt) s1
      | (s1, r) \<Rightarrow> (s1, r))"

text \<open>
  \<open>get\<close> for a url whose \<open>urlparse(url).netloc\<close> is \<open>netloc\<close>: \<open>now\<close> is the clock at entry
  and \<open>can_fetch\<close> the answer of \<open>self.can_fetch(url)\<close>. The pacing sleep \<open>delay - elapsed\<close> is
  taken only when it is positive.
\<close>

definition get ::
  "(string \<Rightarrow> int option) \<Rightarrow> (string \<Rightarrow> real option) \<Rightarrow> real \<Rightarrow> bool \<Rightarrow> string \<Rightarrow>
   (nat \<Rightarrow> attempt_io) \<Rightarrow> PoliteSession \<Rightarrow> PoliteSession \<times> step_result" where
  "get pyint cdt now can_fetch netloc script s =
     (let s1 = (case ps_last_request_ts s netloc of
                  None \<Rightarrow> s
                | Some last_ts \<Rightarrow> snd (effective_delay cdt netloc s))
      in if \<not> can_fetch then (s1, Return None)
         else get_loop pyint netloc script (ps_max_retries s1 + 1) 0 s1)"

text \<open>The delay \<open>_effective_delay\<close> returns in a state.\<close>

definition delay_of :: "(string \<Rightarrow> real option) \<Rightarrow> string \<Rightarrow> PoliteSession \<Rightarrow> real" where
  "delay_of cdt netloc s = fst (effective_delay cdt netloc s)"

text \<open>An origin that answers every request with 429 and the header \<open>h\<close>; the inputs of a
  pass against it.\<close>

definition rate_limited :: "string option \<Rightarrow> real \<Rightarrow> real \<Rightarrow> real \<Rightarrow> attempt_io" where
  "rate_limited h jitter clock backoff_jitter =
     \<lparr>io_jitter = jitter, io_replies = (\<lambda>k. Reply 429 h), io_clock = clock,
      io_backoff_jitter = backoff_jitter\<rparr>"

subsection \<open>Facts about the session\<close>

definition floor_delay :: "(string \<Rightarrow> real option) \<Rightarrow> string \<Rightarrow> PoliteSession \<Rightarrow> real" where
  "floor_delay cdt netloc s =
     max (ps_min_interval s)
         (case ps_domain_delay s netloc of
            None \<Rightarrow> (case cdt netloc of None \<Rightarrow> ps_min_interval s
                      | Some v \<Rightarrow> if v = 0 then ps_min_interval s else v)
          | Some cd \<Rightarrow> cd)"

lemma delay_of_eq:
  "delay_of cdt netloc s =
     floor_delay cdt netloc s + min (extra_of s netloc) (ps_max_extra_delay s)"
  by (simp add: delay_of_def effective_delay_def extra_of_def floor_delay_def Let_def
           split: option.splits)

lemma effective_delay_keeps:
  "delay_of cdt netloc (snd (effective_delay cdt netloc s)) = delay_of cdt netloc s \<and>
   ps_adaptive_extra (snd (effective_delay cdt netloc s)) = ps_adaptive_extra s \<and>
   ps_max_retries (snd (effective_delay cdt netloc s)) = ps_max_retries s"
  by (auto simp: delay_of_eq floor_delay_def extra_of_def effective_delay_def Let_def max_def
           split: option.splits)

text \<open>The call never returns a response with a status of the list.\<close>

lemma session_get_status:
  "session_get retries srv k = Response status h \<Longrightarrow> status \<notin> set status_forcelist"
  by (induction retries arbitrary: k) (auto split: reply.splits if_splits)

lemma session_get_rate_limited: "session_get retries (\<lambda>k. Reply 429 h) k = RequestError"
  by (induction retries arbitrary: k) (simp_all add: status_forcelist_def)

lemma step_rate_limited:
  "fst (attempt_step pyint netloc attempt s (rate_limited h j c b)) = s \<and>
   snd (attempt_step pyint netloc attempt s (rate_limited h j c b)) \<noteq> Return r"
  by (simp add: attempt_step_def rate_limited_def session_get_rate_limited Let_def)

lemma get_loop_rate_limited:
  "fst (get_loop pyint netloc (\<lambda>n. rate_limited h j c b) left attempt s) = s"
proof (induction left arbitrary: attempt)
  case 0
  then show ?case by simp
next
  case (Suc left)
  obtain s1 r where st: "attempt_step pyint netloc attempt s (rate_limited h j c b) = (s1, r)"
    by (cases "attempt_step pyint netloc attempt s (rate_limited h j c b)")
  with step_rate_limited [of pyint netloc attempt s h j c b] have s1: "s1 = s" by simp
  show ?case
    using Suc.IH [of "Suc attempt"] by (cases r) (simp_all add: st s1)
qed

text \<open>No pass raises the extra delay of the origin above what it was, or above 0.\<close>

lemma step_extra_le:
  "extra_of (fst (attempt_step pyint netloc attempt s io)) netloc \<le> max 0 (extra_of s netloc)"
proof (cases "session_get 5 (io_replies io) 0")
  case (Response status h)
  from session_get_status [OF this] have "status \<noteq> 429"
    by (auto simp: status_forcelist_def)
  with Response show ?thesis
    by (auto simp: attempt_step_def extra_of_def Let_def max_def split: option.splits)
next
  case RequestError
  then show ?thesis
    by (simp add: attempt_step_def Let_def)
qed

lemma get_loop_extra_le:
  "extra_of (fst (get_loop pyint netloc script left attempt s)) netloc \<le> max 0 (extra_of s netloc)"
proof (induction left arbitrary: attempt s)
  case 0
  then show ?case by simp
next
  case (Suc left)
  obtain s1 r where st: "attempt_step pyint netloc attempt s (script attempt) = (s1, r)"
    by (cases "attempt_step pyint netloc attempt s (script attempt)")
  with step_extra_le [of pyint netloc attempt s "script attempt"]
  have s1: "extra_of s1 netloc \<le> max 0 (extra_of s netloc)" by simp
  show ?case
  proof (cases r)
    case Continue
    have "extra_of (fst (get_loop pyint netloc script left (Suc attempt) s1)) netloc
            \<le> max 0 (extra_of s1 netloc)"
      by (rule Suc.IH)
    with s1 show ?thesis by (simp add: st Continue)
  next
    case (Return x)
    with s1 show ?thesis by (simp add: st)
  next
    case (Raise e)
    with s1 show ?thesis by (simp add: st)
  qed
qed

text \<open>
  Claim C7 does not hold of the code. \<open>get\<close> raises the extra delay in the branch
  \<open>response.status_code == 429\<close>, but the adapter mounted in \<open>__post_init__\<close> retries a 429
  itself and raises \<open>RetryError\<close> when its retries are used up, so \<open>self.session.get\<close> never
  returns a response with status 429 and the branch is never taken. Against an origin that
  answers every request with 429 each pass ends in the \<open>except\<close> branch, and \<open>get\<close> leaves the
  effective delay of the origin as it was. Whatever the origin does, no \<open>get\<close> raises the
  extra delay of the origin above what it was, or above 0. For a new session the effective
  delay is 1 second before and after.
\<close>

theorem rate_limit_never_raises_delay:
  "session_get retries srv k \<noteq> Response 429 hdr \<and>
   delay_of cdt netloc (fst (get pyint cdt now can_fetch netloc (\<lambda>n. rate_limited h j c b) s)) =
     delay_of cdt netloc s \<and>
   extra_of (fst (get pyint cdt now can_fetch netloc script s)) netloc \<le> max 0 (extra_of s netloc) \<and>
   delay_of (\<lambda>x. None) ''a.example'' new_session = 1 \<and>
   delay_of (\<lambda>x. None) ''a.example''
     (fst (get pyint (\<lambda>x. None) now True ''a.example'' (\<lambda>n. rate_limited h j c b) new_session)) = 1"
proof -
  have a: "session_get retries srv k \<noteq> Response 429 hdr"
    using session_get_status [of retries srv k 429 hdr] by (auto simp: status_forcelist_def)
  have g: "\<And>cdt netloc pyint now can_fetch s.
      fst (get pyint cdt now can_fetch netloc (\<lambda>n. rate_limited h j c b) s) =
        (case ps_last_request_ts s netloc of None \<Rightarrow> s
         | Some last_ts \<Rightarrow> snd (effective_delay cdt netloc s))"
    by (simp add: get_def Let_def get_loop_rate_limited del: get_loop.simps)
  have b: "\<And>cdt netloc pyint now can_fetch s.
      delay_of cdt netloc (fst (get pyint cdt now can_fetch netloc (\<lambda>n. rate_limited h j c b) s)) =
        delay_of cdt netloc s"
    unfolding g by (simp add: effective_delay_keeps split: option.splits)
  have e: "extra_of (fst (get pyint cdt now can_fetch netloc script s)) netloc
             \<le> max 0 (extra_of s netloc)"
  proof -
    let ?s1 = "case ps_last_request_ts s netloc of None \<Rightarrow> s
               | Some last_ts \<Rightarrow> snd (effective_delay cdt netloc s)"
    have x: "extra_of ?s1 netloc = extra_of s netloc"
      by (simp add: extra_of_def effective_delay_keeps split: option.splits)
    show ?thesis
    proof (cases can_fetch)
      case True
      then have "fst (get pyint cdt now can_fetch netloc script s) =
                   fst (get_loop pyint netloc script (ps_max_retries ?s1 + 1) 0 ?s1)"
        by (simp add: get_def Let_def)
      with get_loop_extra_le [of pyint netloc script "ps_max_retries ?s1 + 1" 0 ?s1] x
      show ?thesis by simp
    next
      case False
      then have "fst (get pyint cdt now can_fetch netloc script s) = ?s1"
        by (simp add: get_def Let_def)
      with x show ?thesis by simp
    qed
  qed
  have d: "delay_of (\<lambda>x. None) ''a.example'' new_session = 1"
    by (simp add: delay_of_eq floor_delay_def extra_of_def new_session_def)
  from a b e d show ?thesis by simp
qed

section \<open>The standard library functions the URL code calls (urllib.parse of CPython 3.11)\<close>

text \<open>
  \<open>canonicalize_url\<close>, \<open>CrawlQueue._domain\<close> and \<open>rootsite\<close> are written in terms of
  \<open>urlparse\<close>, \<open>urlunparse\<close>, \<open>parse_qsl\<close> and \<open>urlencode\<close>. They are modelled here after the
  library's Python source. A url is a \<open>string\<close>: a Python \<open>str\<close> whose code points are below
  256, which is what \<open>char\<close> holds. The names and values \<open>parse_qsl\<close> decodes can hold any
  code point, so they are lists of code points (\<open>nat list\<close>), compared as Python compares
  strings. A byte is a \<open>nat\<close> below 256.
\<close>

type_synonym ustr = "nat list"

definition ustr_of :: "string \<Rightarrow> ustr" where
  "ustr_of s = map of_char s"

subsection \<open>Characters\<close>

definition isascii :: "char \<Rightarrow> bool" where
  "isascii c \<longleftrightarrow> (of_char c :: nat) < 128"

text \<open>\<open>c.isascii() and c.isalpha()\<close>: the letters A to Z and a to z.\<close>

definition isalpha_ascii :: "char \<Rightarrow> bool" where
  "isalpha_ascii c \<longleftrightarrow>
     (65 \<le> (of_char c :: nat) \<and> (of_char c :: nat) \<le> 90) \<or>
     (97 \<le> (of_char c :: nat) \<and> (of_char c :: nat) \<le> 122)"

definition isdigit_ascii :: "char \<Rightarrow> bool" where
  "isdigit_ascii c \<longleftrightarrow> 48 \<le> (of_char c :: nat) \<and> (of_char c :: nat) \<le> 57"

text \<open>
  \<open>str.lower\<close> on code points below 256: A to Z, and the letters from 192 to 222 except the
  multiplication sign 215, move up by 32; the lowercase of each is one code point below 256.
\<close>

definition lower_char :: "char \<Rightarrow> char" where
  "lower_char c =
     (if (65 \<le> (of_char c :: nat) \<and> (of_char c :: nat) \<le> 90) \<or>
         (192 \<le> (of_char c :: nat) \<and> (of_char c :: nat) \<le> 222 \<and> (of_char c :: nat) \<noteq> 215)
      then char_of ((of_char c :: nat) + 32) else c)"

definition lower :: "string \<Rightarrow> string" where
  "lower s = map lower_char s"

text \<open>\<open>scheme_chars\<close>: letters, digits and \<open>+-.\<close>\<close>

definition scheme_char :: "char \<Rightarrow> bool" where
  "scheme_char c \<longleftrightarrow> isalpha_ascii c \<or> isdigit_ascii c \<or> c \<in> {CHR ''+'', CHR ''-'', CHR ''.''}"

definition uses_netloc :: "string list" where
  "uses_netloc =
     ['''', ''ftp'', ''http'', ''gopher'', ''nntp'', ''telnet'', ''imap'', ''wais'', ''file'',
      ''mms'', ''https'', ''shttp'', ''snews'', ''prospero'', ''rtsp'', ''rtsps'', ''rtspu'',
      ''rsync'', ''svn'', ''svn+ssh'', ''sftp'', ''nfs'', ''git'', ''git+ssh'', ''ws'', ''wss'']"

definition uses_params :: "string list" where
  "uses_params =
     ['''', ''ftp'', ''hdl'', ''prospero'', ''http'', ''imap'', ''https'', ''shttp'', ''rtsp'',
      ''rtsps'', ''rtspu'', ''sip'', ''sips'', ''mms'', ''sftp'', ''tel'']"

subsection \<open>Splitting strings\<close>

text \<open>\<open>s.split(d, 1)\<close> for a \<open>d\<close> that occurs in \<open>s\<close>, and \<open>s.partition(d)\<close> without its middle
  part: what stands before the first \<open>d\<close>, and what stands after it.\<close>

definition before :: "'a \<Rightarrow> 'a list \<Rightarrow> 'a list" where
  "before d s = takeWhile (\<lambda>c. c \<noteq> d) s"

definition after :: "'a \<Rightarrow> 'a list \<Rightarrow> 'a list" where
  "after d s = drop 1 (dropWhile (\<lambda>c. c \<noteq> d) s)"

text \<open>\<open>s.split(d)\<close>: the pieces between the occurrences of \<open>d\<close>, empty pieces included.\<close>

fun split_on :: "'a \<Rightarrow> 'a list \<Rightarrow> 'a list list" where
  "split_on d [] = [[]]"
| "split_on d (c # cs) =
     (if c = d then [] # split_on d cs
      else (case split_on d cs of
              [] \<Rightarrow> [[c]]
            | x # xs \<Rightarrow> (c # x) # xs))"

subsection \<open>urlsplit and urlparse\<close>

record SplitResult =
  sr_scheme :: string
  sr_netloc :: string
  sr_path :: string
  sr_query :: string
  sr_fragment :: string

record ParseResult =
  pr_scheme :: string
  pr_netloc :: string
  pr_path :: string
  pr_params :: string
  pr_query :: string
  pr_fragment :: string

text \<open>\<open>_splitnetloc(url, 2)\<close> ends the network location at the first of \<open>/?#\<close>.\<close>

definition netloc_char :: "char \<Rightarrow> bool" where
  "netloc_char c \<longleftrightarrow> c \<notin> {CHR ''/'', CHR ''?'', CHR ''#''}"

text \<open>\<open>netloc.partition('[')[2].partition(']')[0]\<close>.\<close>

definition bracketed_host :: "string \<Rightarrow> string" where
  "bracketed_host netloc = before (CHR '']'') (after (CHR ''['') netloc)"

text \<open>
  \<open>urlsplit(url)\<close> with the default arguments. Leading characters up to the space are
  stripped, then tab, carriage return and line feed are removed everywhere. A prefix before
  the first colon is the scheme when it starts with a letter and holds scheme characters
  only. After \<open>//\<close> comes the network location; one bracket without the other raises
  \<open>ValueError\<close>, and so does a bracketed host that \<open>_check_bracketed_host\<close> rejects. That check
  is done by the \<open>ipaddress\<close> module and is a parameter here: \<open>valid_host h\<close> says that
  \<open>_check_bracketed_host(h)\<close> returns. \<open>_checknetloc\<close> raises only when NFKC normalisation
  of the network location brings up one of \<open>/?#@:\<close>, which no code point below 256 does.
\<close>

definition urlsplit :: "(string \<Rightarrow> bool) \<Rightarrow> string \<Rightarrow> py_error + SplitResult" where
  "urlsplit valid_host url =
     (let url1 = dropWhile (\<lambda>c. (of_char c :: nat) \<le> 32) url;
          url2 = filter (\<lambda>c. c \<notin> {CHR 0x09, CHR 0x0D, CHR 0x0A}) url1;
          pre = before (CHR '':'') url2;
          has_scheme = (CHR '':'' \<in> set url2 \<and> pre \<noteq> [] \<and> isalpha_ascii (hd url2) \<and>
                        (\<forall>c \<in> set pre. scheme_char c));
          scheme = (if has_scheme then lower pre else []);
          url3 = (if has_scheme then after (CHR '':'') url2 else url2);
          has_netloc = (take 2 url3 = ''//'');
          netloc = (if has_netloc then takeWhile netloc_char (drop 2 url3) else []);
          url4 = (if has_netloc then dropWhile netloc_char (drop 2 url3) else url3)
      in if (CHR ''['' \<in> set netloc \<and> CHR '']'' \<notin> set netloc) \<or>
            (CHR '']'' \<in> set netloc \<and> CHR ''['' \<notin> set netloc)
         then Inl ValueError
         else if CHR ''['' \<in> set netloc \<and> CHR '']'' \<in> set netloc \<and>
                 \<not> valid_host (bracketed_host netloc)
         then Inl ValueError
         else
           (let url5 = (if CHR ''#'' \<in> set url4 then before (CHR ''#'') url4 else url4);
                fragment = (if CHR ''#'' \<in> set url4 then after (CHR ''#'') url4 else []);
                url6 = (if CHR ''?'' \<in> set url5 then before (CHR ''?'') url5 else url5);
                query = (if CHR ''?'' \<in> set url5 then after (CHR ''?'') url5 else [])
            in Inr \<lparr>sr_scheme = scheme, sr_netloc = netloc, sr_path = url6,
                     sr_query = query, sr_fragment = fragment\<rparr>))"

text \<open>
  \<open>_splitparams(url)\<close>, called when \<open>;\<close> occurs in \<open>url\<close>: the parameters start at the first
  \<open>;\<close> of the last segment (\<open>url.find(';', url.rfind('/'))\<close>), or at the first \<open>;\<close> when there
  is no slash. \<open>last_segment\<close> is what follows the last slash.
\<close>

definition last_segment :: "string \<Rightarrow> string" where
  "last_segment url = rev (takeWhile (\<lambda>c. c \<noteq> CHR ''/'') (rev url))"

definition splitparams :: "string \<Rightarrow> string \<times> string" where
  "splitparams url =
     (if CHR '';'' \<in> set (last_segment url)
      then (take (length url - length (last_segment url)) url @ before (CHR '';'') (last_segment url),
            after (CHR '';'') (last_segment url))
      else (url, []))"

definition urlparse :: "(string \<Rightarrow> bool) \<Rightarrow> string \<Rightarrow> py_error + ParseResult" where
  "urlparse valid_host url =
     (case urlsplit valid_host url of
        Inl e \<Rightarrow> Inl e
      | Inr r \<Rightarrow>
          (let split = (if sr_scheme r \<in> set uses_params \<and> CHR '';'' \<in> set (sr_path r)
                        then splitparams (sr_path r) else (sr_path r, []))
           in Inr \<lparr>pr_scheme = sr_scheme r, pr_netloc = sr_netloc r, pr_path = fst split,
                    pr_params = snd split, pr_query = sr_query r,
                    pr_fragment = sr_fragment r\<rparr>))"

subsection \<open>urlunsplit and urlunparse\<close>

definition urlunsplit :: "string \<Rightarrow> string \<Rightarrow> string \<Rightarrow> string \<Rightarrow> string \<Rightarrow> string" where
  "urlunsplit scheme netloc url query fragment =
     (let url1 = (if netloc \<noteq> [] \<or> (scheme \<noteq> [] \<and> scheme \<in> set uses_netloc) \<or>
                     take 2 url = ''//''
                  then ''//'' @ netloc @ (if url \<noteq> [] \<and> take 1 url \<noteq> ''/'' then ''/'' @ url else url)
                  else url);
          url2 = (if scheme \<noteq> [] then scheme @ '':'' @ url1 else url1);
          url3 = (if query \<noteq> [] then url2 @ ''?'' @ query else url2)
      in if fragment \<noteq> [] then url3 @ ''#'' @ fragment else url3)"

definition urlunparse :: "string \<Rightarrow> string \<Rightarrow> string \<Rightarrow> string \<Rightarrow> string \<Rightarrow> string \<Rightarrow> string" where
  "urlunparse scheme netloc url params query fragment =
     urlunsplit scheme netloc (if params \<noteq> [] then url @ '';'' @ params else url) query fragment"

subsection \<open>UTF-8\<close>

text \<open>
  \<open>str.encode('utf-8', 'strict')\<close> of one code point; a surrogate raises
  \<open>UnicodeEncodeError\<close>. Python has no code point above 0x10FFFF; the model gives \<open>None\<close>
  there too.
\<close>

definition utf8_encode1 :: "nat \<Rightarrow> nat list option" where
  "utf8_encode1 cp =
     (if cp < 0x80 then Some [cp]
      else if cp < 0x800 then Some [0xC0 + cp div 64, 0x80 + cp mod 64]
      else if 0xD800 \<le> cp \<and> cp \<le> 0xDFFF then None
      else if cp < 0x10000 then
        Some [0xE0 + cp div 4096, 0x80 + (cp div 64) mod 64, 0x80 + cp mod 64]
      else if cp < 0x110000 then
        Some [0xF0 + cp div 262144, 0x80 + (cp div 4096) mod 64, 0x80 + (cp div 64) mod 64,
              0x80 + cp mod 64]
      else None)"

fun utf8_encode :: "ustr \<Rightarrow> nat list option" where
  "utf8_encode [] = Some []"
| "utf8_encode (cp # cps) =
     (case utf8_encode1 cp of
        None \<Rightarrow> None
      | Some bs \<Rightarrow> (case utf8_encode cps of None \<Rightarrow> None | Some r \<Rightarrow> Some (bs @ r)))"

definition is_cont :: "nat \<Rightarrow> bool" where
  "is_cont b \<longleftrightarrow> 0x80 \<le> b \<and> b < 0xC0"

text \<open>
  \<open>bytes.decode('utf-8', 'replace')\<close>, as CPython decodes: an invalid start byte gives one
  U+FFFD; a sequence that breaks off gives one U+FFFD for the bytes that were still valid,
  and decoding goes on at the byte that broke it; a sequence cut short by the end of the
  input gives one U+FFFD.
\<close>

function utf8_decode :: "nat list \<Rightarrow> ustr" where
  "utf8_decode [] = []"
| "utf8_decode (b # bs) =
     (if b < 0x80 then b # utf8_decode bs
      else if b < 0xC2 then 0xFFFD # utf8_decode bs
      else if b < 0xE0 then
        (case bs of
           [] \<Rightarrow> [0xFFFD]
         | b2 # r2 \<Rightarrow>
             if is_cont b2 then ((b - 0xC0) * 64 + (b2 - 0x80)) # utf8_decode r2
             else 0xFFFD # utf8_decode bs)
      else if b < 0xF0 then
        (case bs of
           [] \<Rightarrow> [0xFFFD]
         | b2 # r2 \<Rightarrow>
             if \<not> is_cont b2 \<or> (if b2 < 0xA0 then b = 0xE0 else b = 0xED)
             then 0xFFFD # utf8_decode bs
             else (case r2 of
                     [] \<Rightarrow> [0xFFFD]
                   | b3 # r3 \<Rightarrow>
                       if is_cont b3
                       then ((b - 0xE0) * 4096 + (b2 - 0x80) * 64 + (b3 - 0x80)) # utf8_decode r3
                       else 0xFFFD # utf8_decode r2))
      else if b < 0xF5 then
        (case bs of
           [] \<Rightarrow> [0xFFFD]
         | b2 # r2 \<Rightarrow>
             if \<not> is_cont b2 \<or> (if b2 < 0x90 then b = 0xF0 else b = 0xF4)
             then 0xFFFD # utf8_decode bs
             else (case r2 of
                     [] \<Rightarrow> [0xFFFD]
                   | b3 # r3 \<Rightarrow>
                       if \<not> is_cont b3 then 0xFFFD # utf8_decode r2
                       else (case r3 of
                               [] \<Rightarrow> [0xFFFD]
                             | b4 # r4 \<Rightarrow>
                                 if is_cont b4
                                 then ((b - 0xF0) * 262144 + (b2 - 0x80) * 4096 +
                                       (b3 - 0x80) * 64 + (b4 - 0x80)) # utf8_decode r4
                                 else 0xFFFD # utf8_decode r3)))
      else 0xFFFD # utf8_decode bs)"
  by pat_completeness auto
termination
  by (relation "measure length") auto

subsection \<open>Percent-encoding\<close>

text \<open>The value of a hexadecimal digit (\<open>_hexdig\<close> has both cases), \<open>None\<close> for another
  character.\<close>

definition hexval :: "char \<Rightarrow> nat option" where
  "hexval c =
     (if isdigit_ascii c then Some ((of_char c :: nat) - 48)
      else if 65 \<le> (of_char c :: nat) \<and> (of_char c :: nat) \<le> 70 then Some ((of_char c :: nat) - 55)
      else if 97 \<le> (of_char c :: nat) \<and> (of_char c :: nat) \<le> 102 then Some ((of_char c :: nat) - 87)
      else None)"

text \<open>
  \<open>unquote_to_bytes(string)\<close> for a string of ASCII characters, which is all \<open>unquote\<close> passes
  to it, so that \<open>string.encode('utf-8')\<close> is the list of the character codes. The bytes are
  split at \<open>%\<close>; a piece after a \<open>%\<close> that starts with two hexadecimal digits gives their byte
  and the rest of the piece, any other piece gives \<open>%\<close> and the piece.
\<close>

definition unquote_item :: "string \<Rightarrow> nat list" where
  "unquote_item item =
     (case item of
        h1 # h2 # rest \<Rightarrow>
          (case (hexval h1, hexval h2) of
             (Some a, Some b) \<Rightarrow> (16 * a + b) # map of_char rest
           | _ \<Rightarrow> 37 # map of_char item)
      | _ \<Rightarrow> 37 # map of_char item)"

definition unquote_to_bytes :: "string \<Rightarrow> nat list" where
  "unquote_to_bytes s =
     (case split_on (CHR ''%'') s of
        [] \<Rightarrow> []
      | first # items \<Rightarrow> map of_char first @ concat (map unquote_item items))"

text \<open>
  \<open>_asciire.split(string)\<close> cuts the string into runs of ASCII characters and runs of other
  characters. \<open>unquote\<close> returns a string without \<open>%\<close> as it is; otherwise it decodes every
  ASCII run with \<open>unquote_to_bytes\<close> and UTF-8 (errors replaced) and keeps the other runs.
\<close>

fun runs :: "string \<Rightarrow> (bool \<times> string) list" where
  "runs [] = []"
| "runs (c # cs) =
     (case runs cs of
        [] \<Rightarrow> [(isascii c, [c])]
      | (a, r) # rs \<Rightarrow> if a = isascii c then (a, c # r) # rs else (isascii c, [c]) # (a, r) # rs)"

definition unquote :: "string \<Rightarrow> ustr" where
  "unquote s =
     (if CHR ''%'' \<notin> set s then ustr_of s
      else concat (map (\<lambda>(a, r). if a then utf8_decode (unquote_to_bytes r) else ustr_of r)
                       (runs s)))"

text \<open>\<open>unquote_plus\<close>: \<open>string.replace('+', ' ')\<close>, then \<open>unquote\<close>.\<close>

definition unquote_plus :: "string \<Rightarrow> ustr" where
  "unquote_plus s = unquote (map (\<lambda>c. if c = CHR ''+'' then CHR '' '' else c) s)"

text \<open>
  \<open>parse_qsl(qs, keep_blank_values=True)\<close>: no pair for an empty query; otherwise one pair
  for every non-empty piece between \<open>&\<close>, split at its first \<open>=\<close> (\<open>partition\<close>), name and
  value unquoted.
\<close>

definition parse_qsl :: "string \<Rightarrow> (ustr \<times> ustr) list" where
  "parse_qsl qs =
     (if qs = [] then []
      else map (\<lambda>name_value.
                  (unquote_plus (before (CHR ''='') name_value),
                   unquote_plus (after (CHR ''='') name_value)))
               (filter (\<lambda>name_value. name_value \<noteq> []) (split_on (CHR ''&'') qs)))"

text \<open>
  \<open>quote_plus(s)\<close> with \<open>safe=''\<close>: the string is encoded in UTF-8; a byte of \<open>_ALWAYS_SAFE\<close>
  (letters, digits and \<open>_.-~\<close>) stands for itself, the space becomes \<open>+\<close>, any other byte
  becomes \<open>%\<close> and two uppercase hexadecimal digits.
\<close>

definition hexdigit :: "nat \<Rightarrow> char" where
  "hexdigit n = (if n < 10 then char_of (48 + n) else char_of (55 + n))"

definition always_safe :: "nat \<Rightarrow> bool" where
  "always_safe b \<longleftrightarrow>
     (65 \<le> b \<and> b \<le> 90) \<or> (97 \<le> b \<and> b \<le> 122) \<or> (48 \<le> b \<and> b \<le> 57) \<or>
     b \<in> {95, 46, 45, 126}"

definition quote_byte :: "nat \<Rightarrow> string" where
  "quote_byte b =
     (if always_safe b then [char_of b]
      else if b = 32 then ''+''
      else [CHR ''%'', hexdigit (b div 16), hexdigit (b mod 16)])"

definition quote_plus :: "ustr \<Rightarrow> py_error + string" where
  "quote_plus s =
     (case utf8_encode s of
        None \<Rightarrow> Inl UnicodeEncodeError
      | Some bs \<Rightarrow> Inr (concat (map quote_byte bs)))"

text \<open>\<open>urlencode(pairs)\<close>: \<open>quote_plus(k) + '=' + quote_plus(v)\<close> for every pair, joined by
  \<open>&\<close>.\<close>

fun join :: "'a list \<Rightarrow> 'a list list \<Rightarrow> 'a list" where
  "join sep [] = []"
| "join sep [x] = x"
| "join sep (x # y # ys) = x @ sep @ join sep (y # ys)"

fun encode_pairs :: "(ustr \<times> ustr) list \<Rightarrow> py_error + string list" where
  "encode_pairs [] = Inr []"
| "encode_pairs ((k, v) # rest) =
     (case quote_plus k of
        Inl e \<Rightarrow> Inl e
      | Inr qk \<Rightarrow>
          (case quote_plus v of
             Inl e \<Rightarrow> Inl e
           | Inr qv \<Rightarrow>
               (case encode_pairs rest of
                  Inl e \<Rightarrow> Inl e
                | Inr l \<Rightarrow> Inr ((qk @ ''='' @ qv) # l))))"

definition urlencode :: "(ustr \<times> ustr) list \<Rightarrow> py_error + string" where
  "urlencode query =
     (case encode_pairs query of Inl e \<Rightarrow> Inl e | Inr l \<Rightarrow> Inr (join ''&'' l))"

section \<open>URL canonicalizer (src/crawler/canonicalize.py)\<close>

definition TRACKING_KEYS :: "ustr set" where
  "TRACKING_KEYS =
     ustr_of ` {''utm_source'', ''utm_medium'', ''utm_campaign'', ''utm_term'', ''utm_content'',
                ''gclid'', ''fbclid'', ''igshid''}"

text \<open>\<open>re.sub(r"/{2,}", "/", path)\<close>: every run of two or more slashes becomes one slash.\<close>

fun collapse_slashes :: "string \<Rightarrow> string" where
  "collapse_slashes (c1 # c2 # cs) =
     (if c1 = CHR ''/'' \<and> c2 = CHR ''/'' then collapse_slashes (c2 # cs)
      else c1 # collapse_slashes (c2 # cs))"
| "collapse_slashes cs = cs"

text \<open>
  \<open>canonicalize_url\<close>. \<open>sorted(query_pairs)\<close> orders the pairs as Python orders tuples of
  strings: by name, then by value, each by code points.
\<close>

definition canonicalize_url :: "(string \<Rightarrow> bool) \<Rightarrow> string \<Rightarrow> py_error + string" where
  "canonicalize_url valid_host url =
     (case urlparse valid_host url of
        Inl e \<Rightarrow> Inl e
      | Inr p \<Rightarrow>
          (let scheme = lower (pr_scheme p);
               netloc = lower (pr_netloc p);
               path = collapse_slashes (if pr_path p = [] then ''/'' else pr_path p);
               fragment = [];
               query_pairs = filter (\<lambda>(k, v). k \<notin> TRACKING_KEYS) (parse_qsl (pr_query p))
           in case urlencode (sort query_pairs) of
                Inl e \<Rightarrow> Inl e
              | Inr query \<Rightarrow> Inr (urlunparse scheme netloc path [] query fragment)))"

subsection \<open>Which urls the canonicalizer identifies\<close>

text \<open>The pairs \<open>canonicalize_url\<close> keeps, in the order \<open>parse_qsl\<close> gives them.\<close>

definition kept_pairs :: "string \<Rightarrow> (ustr \<times> ustr) list" where
  "kept_pairs qs = filter (\<lambda>(k, v). k \<notin> TRACKING_KEYS) (parse_qsl qs)"

lemma sort_mset_eq: "mset xs = mset ys \<Longrightarrow> sort xs = sort ys"
  by (rule properties_for_sort) simp_all

lemma canonicalize_url_parts:
  "urlparse valid_host url = Inr p \<Longrightarrow>
   canonicalize_url valid_host url =
     (case urlencode (sort (kept_pairs (pr_query p))) of
        Inl e \<Rightarrow> Inl e
      | Inr query \<Rightarrow>
          Inr (urlunparse (lower (pr_scheme p)) (lower (pr_netloc p))
                 (collapse_slashes (if pr_path p = [] then ''/'' else pr_path p)) [] query []))"
  by (simp add: canonicalize_url_def kept_pairs_def Let_def)

lemma split_on_first: "d \<notin> set a \<Longrightarrow> split_on d (a @ d # b) = a # split_on d b"
  by (induction a) (auto split: list.splits)

lemma split_on_only: "d \<notin> set a \<Longrightarrow> split_on d a = [a]"
  by (induction a) (auto split: list.splits)

lemma before_first: "d \<notin> set a \<Longrightarrow> before d (a @ d # b) = a"
  by (simp add: before_def takeWhile_append2 takeWhile_append)

lemma after_first: "d \<notin> set a \<Longrightarrow> after d (a @ d # b) = b"
  by (simp add: after_def dropWhile_append3 dropWhile_append)

text \<open>The eight names, as they stand in a query string.\<close>

definition tracking_names :: "string list" where
  "tracking_names =
     [''utm_source'', ''utm_medium'', ''utm_campaign'', ''utm_term'', ''utm_content'',
      ''gclid'', ''fbclid'', ''igshid'']"

lemma tracking_names_plain:
  "list_all (\<lambda>k. CHR ''&'' \<notin> set k \<and> CHR ''='' \<notin> set k \<and> k \<noteq> [] \<and>
                 unquote_plus k \<in> TRACKING_KEYS) tracking_names"
  by code_simp

lemma tracking_name_plain:
  "k \<in> set tracking_names \<Longrightarrow>
   CHR ''&'' \<notin> set k \<and> CHR ''='' \<notin> set k \<and> k \<noteq> [] \<and> unquote_plus k \<in> TRACKING_KEYS"
  using tracking_names_plain unfolding list_all_iff by blast

lemma tracking_pair_dropped:
  assumes k: "k \<in> set tracking_names" and v: "CHR ''&'' \<notin> set v"
  shows "kept_pairs (k @ ''='' @ v @ ''&'' @ qs) = kept_pairs qs"
proof -
  from tracking_name_plain [OF k]
  have k1: "CHR ''&'' \<notin> set k" and k2: "CHR ''='' \<notin> set k" and k3: "k \<noteq> []"
    and k4: "unquote_plus k \<in> TRACKING_KEYS" by simp_all
  have piece: "CHR ''&'' \<notin> set (k @ ''='' @ v)" using k1 v by simp
  have s: "split_on (CHR ''&'') (k @ ''='' @ v @ ''&'' @ qs) =
             (k @ ''='' @ v) # split_on (CHR ''&'') qs"
    using split_on_first [OF piece, of qs] by simp
  have b: "before (CHR ''='') (k @ ''='' @ v) = k"
    using before_first [OF k2, of v] by simp
  have e: "split_on (CHR ''&'') [] = [[]]" by simp
  show ?thesis
  proof (cases "qs = []")
    case True
    then show ?thesis using s b k3 k4 by (simp add: kept_pairs_def parse_qsl_def)
  next
    case False
    then show ?thesis using s b k3 k4 by (simp add: kept_pairs_def parse_qsl_def)
  qed
qed

text \<open>
  Claim C6, as the code has it. Two urls that \<open>urlparse\<close> accepts get the same canonical form
  when they agree on the path, on the scheme and the network location up to letter case, and
  on the query pairs that are kept, whatever the order of the pairs; fragment and path
  parameters play no part. The pairs that are not kept are those whose decoded name is one
  of the eight names of \<open>TRACKING_KEYS\<close>: a pair with such a name in front of a query changes
  nothing. The two urls of the specification have the same canonical form.
\<close>

theorem canonicalize_equivalence:
  "(urlparse valid_host u1 = Inr p1 \<and> urlparse valid_host u2 = Inr p2 \<and>
    lower (pr_scheme p1) = lower (pr_scheme p2) \<and>
    lower (pr_netloc p1) = lower (pr_netloc p2) \<and>
    pr_path p1 = pr_path p2 \<and>
    mset (kept_pairs (pr_query p1)) = mset (kept_pairs (pr_query p2)) \<longrightarrow>
    canonicalize_url valid_host u1 = canonicalize_url valid_host u2) \<and>
   (k \<in> set tracking_names \<and> CHR ''&'' \<notin> set v \<longrightarrow>
    kept_pairs (k @ ''='' @ v @ ''&'' @ qs) = kept_pairs qs) \<and>
   canonicalize_url valid_host ''http://EX.com/a?utm_source=x&b=2#frag'' =
     canonicalize_url valid_host ''http://ex.com/a?b=2''"
proof (intro conjI impI)
  assume a: "urlparse valid_host u1 = Inr p1 \<and> urlparse valid_host u2 = Inr p2 \<and>
    lower (pr_scheme p1) = lower (pr_scheme p2) \<and>
    lower (pr_netloc p1) = lower (pr_netloc p2) \<and>
    pr_path p1 = pr_path p2 \<and>
    mset (kept_pairs (pr_query p1)) = mset (kept_pairs (pr_query p2))"
  then have s: "sort (kept_pairs (pr_query p1)) = sort (kept_pairs (pr_query p2))"
    by (intro sort_mset_eq) simp
  from a have u1: "urlparse valid_host u1 = Inr p1" and u2: "urlparse valid_host u2 = Inr p2"
    and e: "lower (pr_scheme p1) = lower (pr_scheme p2)" "lower (pr_netloc p1) = lower (pr_netloc p2)"
      "pr_path p1 = pr_path p2"
    by simp_all
  show "canonicalize_url valid_host u1 = canonicalize_url valid_host u2"
    unfolding canonicalize_url_parts [OF u1] canonicalize_url_parts [OF u2] s e ..
next
  assume "k \<in> set tracking_names \<and> CHR ''&'' \<notin> set v"
  then have "k \<in> set tracking_names" and "CHR ''&'' \<notin> set v"
    by simp_all
  then show "kept_pairs (k @ ''='' @ v @ ''&'' @ qs) = kept_pairs qs"
    by (rule tracking_pair_dropped)
next
  have "canonicalize_url valid_host ''http://EX.com/a?utm_source=x&b=2#frag'' =
          Inr ''http://ex.com/a?b=2''"
    by code_simp
  moreover have "canonicalize_url valid_host ''http://ex.com/a?b=2'' = Inr ''http://ex.com/a?b=2''"
    by code_simp
  ultimately show "canonicalize_url valid_host ''http://EX.com/a?utm_source=x&b=2#frag'' =
     canonicalize_url valid_host ''http://ex.com/a?b=2''"
    by simp
qed

theorem canonicalize_equivalence_witness:
  "urlparse (\<lambda>h. True) ''HTTP://EX.com/a?b=2&utm_source=x&a=1#frag'' =
     Inr \<lparr>pr_scheme = ''http'', pr_netloc = ''EX.com'', pr_path = ''/a'', pr_params = [],
          pr_query = ''b=2&utm_source=x&a=1'', pr_fragment = ''frag''\<rparr> \<and>
   urlparse (\<lambda>h. True) ''http://ex.com/a?a=1&b=2'' =
     Inr \<lparr>pr_scheme = ''http'', pr_netloc = ''ex.com'', pr_path = ''/a'', pr_params = [],
          pr_query = ''a=1&b=2'', pr_fragment = []\<rparr> \<and>
   kept_pairs ''b=2&utm_source=x&a=1'' = [(ustr_of ''b'', ustr_of ''2''), (ustr_of ''a'', ustr_of ''1'')] \<and>
   kept_pairs ''a=1&b=2'' = [(ustr_of ''a'', ustr_of ''1''), (ustr_of ''b'', ustr_of ''2'')] \<and>
   ''gclid'' \<in> set tracking_names \<and>
   kept_pairs ''gclid=x%26y&b=2'' = kept_pairs ''b=2'' \<and>
   canonicalize_url (\<lambda>h. True) ''HTTP://EX.com/a?b=2&utm_source=x&a=1#frag'' =
     canonicalize_url (\<lambda>h. True) ''http://ex.com/a?a=1&b=2''"
proof -
  have p1: "urlparse (\<lambda>h. True) ''HTTP://EX.com/a?b=2&utm_source=x&a=1#frag'' =
     Inr \<lparr>pr_scheme = ''http'', pr_netloc = ''EX.com'', pr_path = ''/a'', pr_params = [],
          pr_query = ''b=2&utm_source=x&a=1'', pr_fragment = ''frag''\<rparr>"
    by code_simp
  have p2: "urlparse (\<lambda>h. True) ''http://ex.com/a?a=1&b=2'' =
     Inr \<lparr>pr_scheme = ''http'', pr_netloc = ''ex.com'', pr_path = ''/a'', pr_params = [],
          pr_query = ''a=1&b=2'', pr_fragment = []\<rparr>"
    by code_simp
  have k1: "kept_pairs ''b=2&utm_source=x&a=1'' =
              [(ustr_of ''b'', ustr_of ''2''), (ustr_of ''a'', ustr_of ''1'')]"
    by code_simp
  have k2: "kept_pairs ''a=1&b=2'' = [(ustr_of ''a'', ustr_of ''1''), (ustr_of ''b'', ustr_of ''2'')]"
    by code_simp
  have l: "lower ''EX.com'' = lower ''ex.com''"
    by code_simp
  have g: "''gclid'' \<in> set tracking_names"
    by (simp add: tracking_names_def)
  from canonicalize_equivalence [of "\<lambda>h. True" "''HTTP://EX.com/a?b=2&utm_source=x&a=1#frag''"
      "\<lparr>pr_scheme = ''http'', pr_netloc = ''EX.com'', pr_path = ''/a'', pr_params = [],
          pr_query = ''b=2&utm_source=x&a=1'', pr_fragment = ''frag''\<rparr>"
      "''http://ex.com/a?a=1&b=2''"
      "\<lparr>pr_scheme = ''http'', pr_netloc = ''ex.com'', pr_path = ''/a'', pr_params = [],
          pr_query = ''a=1&b=2'', pr_fragment = []\<rparr>"
      "''gclid''" "''x%26y''" "''b=2''"] p1 p2 k1 k2 l g
  show ?thesis by simp
qed

text \<open>
  Claim C6 as stated fails for \<open>utm_*\<close>: \<open>utm_id\<close> is not one of the eight names, and a url with
  it keeps it.
\<close>

theorem utm_id_is_kept:
  "canonicalize_url (\<lambda>h. True) ''http://ex.com/a?utm_id=7&b=2'' = Inr ''http://ex.com/a?b=2&utm_id=7'' \<and>
   canonicalize_url (\<lambda>h. True) ''http://ex.com/a?b=2'' = Inr ''http://ex.com/a?b=2'' \<and>
   canonicalize_url (\<lambda>h. True) ''http://ex.com/a?utm_id=7&b=2'' \<noteq>
     canonicalize_url (\<lambda>h. True) ''http://ex.com/a?b=2''"
proof -
  have a: "canonicalize_url (\<lambda>h. True) ''http://ex.com/a?utm_id=7&b=2'' =
             Inr ''http://ex.com/a?b=2&utm_id=7''"
    by code_simp
  have b: "canonicalize_url (\<lambda>h. True) ''http://ex.com/a?b=2'' = Inr ''http://ex.com/a?b=2''"
    by code_simp
  show ?thesis unfolding a b by simp
qed

section \<open>Crawl queue with the page budget (src/crawler/queue.py)\<close>

definition MAX_PAGES_PER_DOMAIN :: nat where
  "MAX_PAGES_PER_DOMAIN = 200"

text \<open>
  \<open>CrawlQueue\<close>: the database and the dictionary \<open>domain_counts\<close>, which \<open>__init__\<close> sets to
  \<open>{}\<close>. The database file may hold rows of an earlier run.
\<close>

record CrawlQueue =
  cq_db :: StateDB
  cq_domain_counts :: "string \<rightharpoonup> nat"

definition new_queue :: "StateDB \<Rightarrow> CrawlQueue" where
  "new_queue db = \<lparr>cq_db = db, cq_domain_counts = Map.empty\<rparr>"

text \<open>\<open>self.domain_counts.get(dom, 0)\<close>.\<close>

definition count_of :: "CrawlQueue \<Rightarrow> string \<Rightarrow> nat" where
  "count_of q dmn = (case cq_domain_counts q dmn of None \<Rightarrow> 0 | Some n \<Rightarrow> n)"

text \<open>\<open>_domain\<close>: \<open>urlparse(url).netloc.lower()\<close>; \<open>urlparse\<close> can raise \<open>ValueError\<close>.\<close>

definition domain_of :: "(string \<Rightarrow> bool) \<Rightarrow> string \<Rightarrow> py_error + string" where
  "domain_of valid_host url =
     (case urlparse valid_host url of Inl e \<Rightarrow> Inl e | Inr p \<Rightarrow> Inr (lower (pr_netloc p)))"

text \<open>
  The three methods. A method that can raise returns the queue as the call leaves it together
  with the exception or the value. \<open>seed\<close> calls \<open>self.db.push\<close> at once. \<open>push\<close> returns
  without a database call when the counter of the domain has reached the budget. \<open>pop\<close>
  takes the row out of the database first and counts it afterwards, so a url that
  \<open>_domain\<close> rejects is gone from the database and is not counted.
\<close>

definition seed :: "string \<Rightarrow> string \<Rightarrow> string \<Rightarrow> CrawlQueue \<Rightarrow> CrawlQueue" where
  "seed url source record_type q = q\<lparr>cq_db := push url 0 source record_type (cq_db q)\<rparr>"

definition cq_push ::
  "(string \<Rightarrow> bool) \<Rightarrow> string \<Rightarrow> int \<Rightarrow> string \<Rightarrow> string \<Rightarrow> CrawlQueue \<Rightarrow>
   CrawlQueue \<times> (py_error + unit)" where
  "cq_push valid_host url depth source record_type q =
     (case domain_of valid_host url of
        Inl e \<Rightarrow> (q, Inl e)
      | Inr dmn \<Rightarrow>
          if count_of q dmn \<ge> MAX_PAGES_PER_DOMAIN then (q, Inr ())
          else (q\<lparr>cq_db := push url depth source record_type (cq_db q)\<rparr>, Inr ()))"

definition cq_pop ::
  "(string \<Rightarrow> bool) \<Rightarrow> CrawlQueue \<Rightarrow> CrawlQueue \<times> (py_error + item option)" where
  "cq_pop valid_host q =
     (case pop (cq_db q) of
        (None, db1) \<Rightarrow> (q\<lparr>cq_db := db1\<rparr>, Inr None)
      | (Some row, db1) \<Rightarrow>
          (case domain_of valid_host (fst row) of
             Inl e \<Rightarrow> (q\<lparr>cq_db := db1\<rparr>, Inl e)
           | Inr dmn \<Rightarrow>
               (q\<lparr>cq_db := db1,
                   cq_domain_counts := (cq_domain_counts q)(dmn \<mapsto> count_of q dmn + 1)\<rparr>,
                Inr (Some row))))"

text \<open>
  A sequence of calls on one queue object, started on any database. The run keeps the items
  the \<open>pop\<close> calls returned. A call that raises leaves the object as it is at that point.
\<close>

datatype cq_op = Seed string string string | QPush string int string string | QPop

fun cq_run ::
  "(string \<Rightarrow> bool) \<Rightarrow> cq_op list \<Rightarrow> CrawlQueue \<times> item list \<Rightarrow> CrawlQueue \<times> item list" where
  "cq_run valid_host [] st = st"
| "cq_run valid_host (Seed url source record_type # ops) (q, out) =
     cq_run valid_host ops (seed url source record_type q, out)"
| "cq_run valid_host (QPush url depth source record_type # ops) (q, out) =
     cq_run valid_host ops (fst (cq_push valid_host url depth source record_type q), out)"
| "cq_run valid_host (QPop # ops) (q, out) =
     cq_run valid_host ops
       (fst (cq_pop valid_host q),
        (case snd (cq_pop valid_host q) of Inr (Some row) \<Rightarrow> out @ [row] | _ \<Rightarrow> out))"

text \<open>How many of the popped items belong to a domain.\<close>

definition popped_of :: "(string \<Rightarrow> bool) \<Rightarrow> string \<Rightarrow> item list \<Rightarrow> nat" where
  "popped_of valid_host dmn out =
     length (filter (\<lambda>row. domain_of valid_host (fst row) = Inr dmn) out)"

subsection \<open>Facts about the crawl queue\<close>

lemma seed_counts: "cq_domain_counts (seed url source record_type q) = cq_domain_counts q"
  by (simp add: seed_def)

lemma push_counts:
  "cq_domain_counts (fst (cq_push valid_host url depth source record_type q)) = cq_domain_counts q"
  by (simp add: cq_push_def split: sum.splits)

lemma count_of_cong: "cq_domain_counts q1 = cq_domain_counts q \<Longrightarrow> count_of q1 dmn = count_of q dmn"
  by (simp add: count_of_def)

lemma pop_counts:
  "count_of (fst (cq_pop valid_host q)) dmn + popped_of valid_host dmn out =
   count_of q dmn +
   popped_of valid_host dmn
     (case snd (cq_pop valid_host q) of Inr (Some row) \<Rightarrow> out @ [row] | _ \<Rightarrow> out)"
  by (auto simp: cq_pop_def count_of_def popped_of_def split: prod.splits option.splits sum.splits)

lemma cq_run_counts:
  "cq_run valid_host ops (q, out) = (q1, out1) \<Longrightarrow>
   count_of q1 dmn + popped_of valid_host dmn out = count_of q dmn + popped_of valid_host dmn out1"
proof (induction valid_host ops "(q, out)" arbitrary: q out rule: cq_run.induct)
  case (1 valid_host)
  then show ?case by simp
next
  case (2 valid_host url source record_type ops q out)
  from "2.prems" have "cq_run valid_host ops (seed url source record_type q, out) = (q1, out1)"
    by simp
  from "2.hyps" [OF this] show ?case
    by (simp add: count_of_cong [OF seed_counts])
next
  case (3 valid_host url depth source record_type ops q out)
  from "3.prems"
  have "cq_run valid_host ops (fst (cq_push valid_host url depth source record_type q), out) = (q1, out1)"
    by simp
  from "3.hyps" [OF this] show ?case
    by (simp add: count_of_cong [OF push_counts])
next
  case (4 valid_host ops q out)
  let ?out2 = "case snd (cq_pop valid_host q) of Inr (Some row) \<Rightarrow> out @ [row] | _ \<Rightarrow> out"
  from "4.prems" have "cq_run valid_host ops (fst (cq_pop valid_host q), ?out2) = (q1, out1)"
    by simp
  from "4.hyps" [OF this]
  have "count_of q1 dmn + popped_of valid_host dmn ?out2 =
        count_of (fst (cq_pop valid_host q)) dmn + popped_of valid_host dmn out1" .
  with pop_counts [of valid_host q dmn out] show ?case by linarith
qed

text \<open>
  Claim C10. After any sequence of \<open>seed\<close>, \<open>push\<close> and \<open>pop\<close> calls on a new queue object the
  counter of every domain is the number of items of that domain that \<open>pop\<close> has returned.
  \<open>seed\<close> leaves the counters alone and its url is in the table afterwards whatever the
  counters say. \<open>push\<close> leaves the counters alone as well, and it skips the database call
  exactly when \<open>MAX_PAGES_PER_DOMAIN\<close> or more items of the url's domain have been popped.
\<close>

theorem budget_counts_pops_only:
  "cq_run valid_host ops (new_queue db, []) = (q, out) \<longrightarrow>
     count_of q dmn = popped_of valid_host dmn out \<and>
     cq_domain_counts (seed url source record_type q) = cq_domain_counts q \<and>
     url \<in> row_url ` set (queue (cq_db (seed url source record_type q))) \<and>
     cq_domain_counts (fst (cq_push valid_host url depth source record_type q)) = cq_domain_counts q \<and>
     (domain_of valid_host url = Inr dmn \<longrightarrow>
        cq_push valid_host url depth source record_type q =
          (if MAX_PAGES_PER_DOMAIN \<le> popped_of valid_host dmn out then (q, Inr ())
           else (q\<lparr>cq_db := push url depth source record_type (cq_db q)\<rparr>, Inr ())))"
proof (intro impI)
  assume run: "cq_run valid_host ops (new_queue db, []) = (q, out)"
  have c: "count_of q dmn = popped_of valid_host dmn out"
    using cq_run_counts [OF run, of dmn] by (simp add: count_of_def new_queue_def popped_of_def)
  have s: "url \<in> row_url ` set (queue (cq_db (seed url source record_type q)))"
    by (auto simp: seed_def push_def)
  have p: "domain_of valid_host url = Inr dmn \<longrightarrow>
        cq_push valid_host url depth source record_type q =
          (if MAX_PAGES_PER_DOMAIN \<le> popped_of valid_host dmn out then (q, Inr ())
           else (q\<lparr>cq_db := push url depth source record_type (cq_db q)\<rparr>, Inr ()))"
    by (simp add: cq_push_def c)
  show "count_of q dmn = popped_of valid_host dmn out \<and>
     cq_domain_counts (seed url source record_type q) = cq_domain_counts q \<and>
     url \<in> row_url ` set (queue (cq_db (seed url source record_type q))) \<and>
     cq_domain_counts (fst (cq_push valid_host url depth source record_type q)) = cq_domain_counts q \<and>
     (domain_of valid_host url = Inr dmn \<longrightarrow>
        cq_push valid_host url depth source record_type q =
          (if MAX_PAGES_PER_DOMAIN \<le> popped_of valid_host dmn out then (q, Inr ())
           else (q\<lparr>cq_db := push url depth source record_type (cq_db q)\<rparr>, Inr ())))"
    using c s p seed_counts push_counts by blast
qed

theorem budget_counts_pops_only_witness:
  "cq_run (\<lambda>h. False) [Seed ''http://a.example/x'' ''a.example'' ''news'', QPop] (new_queue fresh_db, []) =
     (fst (cq_run (\<lambda>h. False) [Seed ''http://a.example/x'' ''a.example'' ''news'', QPop]
             (new_queue fresh_db, [])),
      [(''http://a.example/x'', 0, ''a.example'', ''news'')]) \<and>
   domain_of (\<lambda>h. False) ''http://A.example/y'' = Inr ''a.example'' \<and>
   count_of (fst (cq_run (\<lambda>h. False) [Seed ''http://a.example/x'' ''a.example'' ''news'', QPop]
                    (new_queue fresh_db, []))) ''a.example'' = 1 \<and>
   map row_url (queue (cq_db (fst (cq_push (\<lambda>h. False) ''http://A.example/y'' 1 ''a.example'' ''news''
       (fst (cq_run (\<lambda>h. False) [Seed ''http://a.example/x'' ''a.example'' ''news'', QPop]
               (new_queue fresh_db, []))))))) = [''http://A.example/y'']"
proof -
  let ?vh = "\<lambda>h::string. False"
  let ?ops = "[Seed ''http://a.example/x'' ''a.example'' ''news'', QPop]"
  let ?st = "cq_run ?vh ?ops (new_queue fresh_db, [])"
  have out: "snd ?st = [(''http://a.example/x'', 0, ''a.example'', ''news'')]"
    by code_simp
  have run: "?st = (fst ?st, [(''http://a.example/x'', 0, ''a.example'', ''news'')])"
    using out by (metis prod.collapse)
  have d: "domain_of ?vh ''http://A.example/y'' = Inr ''a.example''"
    by code_simp
  have d1: "domain_of ?vh ''http://a.example/x'' = Inr ''a.example''"
    by code_simp
  have m: "\<not> MAX_PAGES_PER_DOMAIN \<le> 1"
    by (simp add: MAX_PAGES_PER_DOMAIN_def)
  have q: "map row_url (queue (cq_db (fst ?st))) = []"
    by code_simp
  from budget_counts_pops_only [of ?vh ?ops fresh_db "fst ?st"
      "[(''http://a.example/x'', 0, ''a.example'', ''news'')]" "''a.example''"
      "''http://A.example/y''" "''a.example''" "''news''" 1] run d d1 m q
  show ?thesis
    by (simp add: popped_of_def push_def)
qed

section \<open>Robots authority (src/crawler/robots.py)\<close>

text \<open>
  \<open>robots.py\<close> asks \<open>urllib.robotparser.RobotFileParser\<close> of the standard library (CPython
  3.11). What the network gives for the url of \<open>robots.txt\<close> is one of four things:
  \<open>urlopen\<close> raises an exception that is not an \<open>HTTPError\<close> (\<open>URLError\<close>: no route, refused
  connection, timeout); \<open>urlopen\<close> raises \<open>HTTPError\<close> with a status code; the body arrives
  and \<open>raw.decode("utf-8")\<close> raises \<open>UnicodeDecodeError\<close>; or the body is decoded and \<open>parse\<close>
  reads it. \<open>parse\<close> never raises on decoded text (it skips the lines it does not know), it
  calls \<open>modified()\<close>, which stores \<open>time.time()\<close>, and it fills the entries. The entries and
  the default entry it builds from the text are given with the outcome.
\<close>

record Entry =
  useragents :: "string list"
  rulelines :: "(string \<times> bool) list"
  delay :: "int option"

datatype robots_fetch =
    Unreachable
  | Status nat
  | Undecodable
  | Text "Entry list" "Entry option" real

record RobotFileParser =
  entries :: "Entry list"
  default_entry :: "Entry option"
  disallow_all :: bool
  allow_all :: bool
  last_checked :: real

text \<open>\<open>RobotFileParser()\<close>.\<close>

definition new_parser :: RobotFileParser where
  "new_parser =
     \<lparr>entries = [], default_entry = None, disallow_all = False, allow_all = False,
      last_checked = 0\<rparr>"

text \<open>
  \<open>RobotFileParser.read\<close>: the parser as the call leaves it, and the exception if it raises.
  \<open>_add_entry\<close> keeps the first default entry.
\<close>

definition read :: "robots_fetch \<Rightarrow> RobotFileParser \<Rightarrow> RobotFileParser \<times> (py_error + unit)" where
  "read got r =
     (case got of
        Unreachable \<Rightarrow> (r, Inl URLError)
      | Status code \<Rightarrow>
          (if code = 401 \<or> code = 403 then (r\<lparr>disallow_all := True\<rparr>, Inr ())
           else if code \<ge> 400 \<and> code < 500 then (r\<lparr>allow_all := True\<rparr>, Inr ())
           else (r, Inr ()))
      | Undecodable \<Rightarrow> (r, Inl UnicodeDecodeError)
      | Text es d t \<Rightarrow>
          (r\<lparr>entries := entries r @ es,
             default_entry := (case default_entry r of None \<Rightarrow> d | Some x \<Rightarrow> Some x),
             last_checked := t\<rparr>, Inr ()))"

text \<open>\<open>agent in useragent\<close>: \<open>a\<close> occurs in \<open>s\<close> as a substring.\<close>

fun contains :: "string \<Rightarrow> string \<Rightarrow> bool" where
  "contains a [] = (a = [])"
| "contains a (c # cs) = (take (length a) (c # cs) = a \<or> contains a cs)"

text \<open>\<open>Entry.applies_to\<close> and \<open>Entry.allowance\<close> (with \<open>RuleLine.applies_to\<close>).\<close>

definition applies_to :: "Entry \<Rightarrow> string \<Rightarrow> bool" where
  "applies_to e useragent =
     (let ua = lower (hd (split_on (CHR ''/'') useragent))
      in list_ex (\<lambda>agent. agent = ''*'' \<or> contains (lower agent) ua) (useragents e))"

definition allowance :: "Entry \<Rightarrow> string \<Rightarrow> bool" where
  "allowance e filename =
     (case find (\<lambda>(path, a). path = ''*'' \<or> take (length path) filename = path) (rulelines e) of
        None \<Rightarrow> True
      | Some (path, a) \<Rightarrow> a)"

text \<open>
  \<open>RobotFileParser.can_fetch\<close>. \<open>quoted\<close> stands for the three library calls that bring the url
  into the form the rule lines have,
  \<open>quote(urlunparse(('', '', p.path, p.params, p.query, p.fragment)))\<close> for
  \<open>p = urlparse(unquote(url))\<close>; \<open>urlparse\<close> can raise \<open>ValueError\<close> there.
\<close>

definition can_fetch ::
  "(string \<Rightarrow> py_error + string) \<Rightarrow> RobotFileParser \<Rightarrow> string \<Rightarrow> string \<Rightarrow> py_error + bool" where
  "can_fetch quoted r useragent url =
     (if disallow_all r then Inr False
      else if allow_all r then Inr True
      else if last_checked r = 0 then Inr False
      else
        (case quoted url of
           Inl e \<Rightarrow> Inl e
         | Inr url1 \<Rightarrow>
             (let url2 = (if url1 = [] then ''/'' else url1)
              in case find (\<lambda>entry. applies_to entry useragent) (entries r) of
                   Some entry \<Rightarrow> Inr (allowance entry url2)
                 | None \<Rightarrow>
                     (case default_entry r of
                        Some d \<Rightarrow> Inr (allowance d url2)
                      | None \<Rightarrow> Inr True))))"

text \<open>\<open>RobotFileParser.crawl_delay\<close>.\<close>

definition rp_crawl_delay :: "RobotFileParser \<Rightarrow> string \<Rightarrow> int option" where
  "rp_crawl_delay r useragent =
     (if last_checked r = 0 then None
      else
        (case find (\<lambda>entry. applies_to entry useragent) (entries r) of
           Some entry \<Rightarrow> delay entry
         | None \<Rightarrow> (case default_entry r of Some d \<Rightarrow> delay d | None \<Rightarrow> None)))"

text \<open>
  \<open>_get_parser(root)\<close>: \<open>set_url\<close> calls \<open>urlparse\<close> on the url of \<open>robots.txt\<close> outside the
  \<open>try\<close>; an exception of \<open>read\<close> is dropped and the parser is returned as \<open>read\<close> left it.
  \<open>net\<close> says what the network gives for a url. The \<open>lru_cache\<close> keeps the parser of a
  site, so one outcome per site is all a process sees.
\<close>

definition get_parser ::
  "(string \<Rightarrow> bool) \<Rightarrow> (string \<Rightarrow> robots_fetch) \<Rightarrow> string \<Rightarrow> py_error + RobotFileParser" where
  "get_parser valid_host net site =
     (case urlparse valid_host (site @ ''/robots.txt'') of
        Inl e \<Rightarrow> Inl e
      | Inr p \<Rightarrow> Inr (fst (read (net (site @ ''/robots.txt'')) new_parser)))"

definition rootsite :: "(string \<Rightarrow> bool) \<Rightarrow> string \<Rightarrow> py_error + string" where
  "rootsite valid_host url =
     (case urlparse valid_host url of
        Inl e \<Rightarrow> Inl e
      | Inr p \<Rightarrow> Inr (pr_scheme p @ ''://'' @ pr_netloc p))"

text \<open>
  \<open>allowed\<close> and \<open>crawl_delay\<close>: \<open>_get_parser(rootsite(url))\<close> stands before the \<open>try\<close>, so its
  exception leaves the function; an exception of the parser's method gives \<open>True\<close>, or
  \<open>None\<close>.
\<close>

definition allowed ::
  "(string \<Rightarrow> bool) \<Rightarrow> (string \<Rightarrow> robots_fetch) \<Rightarrow> (string \<Rightarrow> py_error + string) \<Rightarrow>
   string \<Rightarrow> string \<Rightarrow> py_error + bool" where
  "allowed valid_host net quoted user_agent url =
     (case rootsite valid_host url of
        Inl e \<Rightarrow> Inl e
      | Inr site \<Rightarrow>
          (case get_parser valid_host net site of
             Inl e \<Rightarrow> Inl e
           | Inr r \<Rightarrow>
               (case can_fetch quoted r user_agent url of
                  Inl e \<Rightarrow> Inr True
                | Inr b \<Rightarrow> Inr b)))"

definition crawl_delay ::
  "(string \<Rightarrow> bool) \<Rightarrow> (string \<Rightarrow> robots_fetch) \<Rightarrow> string \<Rightarrow> string \<Rightarrow> py_error + int option" where
  "crawl_delay valid_host net user_agent url =
     (case rootsite valid_host url of
        Inl e \<Rightarrow> Inl e
      | Inr site \<Rightarrow>
          (case get_parser valid_host net site of
             Inl e \<Rightarrow> Inl e
           | Inr r \<Rightarrow> Inr (rp_crawl_delay r user_agent)))"

subsection \<open>What an unreadable robots.txt gives\<close>

text \<open>The parser after a failed \<open>read\<close>, and what its two methods answer.\<close>

lemma read_unreachable: "fst (read Unreachable new_parser) = new_parser"
  by (simp add: read_def)

lemma read_undecodable: "fst (read Undecodable new_parser) = new_parser"
  by (simp add: read_def)

lemma can_fetch_unread: "can_fetch quoted new_parser ua url = Inr False"
  by (simp add: can_fetch_def new_parser_def)

lemma can_fetch_status:
  "can_fetch quoted (fst (read (Status code) new_parser)) ua url =
     Inr (code \<noteq> 401 \<and> code \<noteq> 403 \<and> 400 \<le> code \<and> code < 500)"
  by (simp add: can_fetch_def read_def new_parser_def)

lemma crawl_delay_unread:
  "got \<in> {Unreachable, Undecodable, Status code} \<Longrightarrow>
   rp_crawl_delay (fst (read got new_parser)) ua = None"
  by (auto simp: rp_crawl_delay_def read_def new_parser_def)

lemma allowed_const:
  "allowed valid_host (\<lambda>u. got) quoted ua url =
     (case rootsite valid_host url of
        Inl e \<Rightarrow> Inl e
      | Inr site \<Rightarrow>
          (case urlparse valid_host (site @ ''/robots.txt'') of
             Inl e \<Rightarrow> Inl e
           | Inr p \<Rightarrow>
               (case can_fetch quoted (fst (read got new_parser)) ua url of
                  Inl e \<Rightarrow> Inr True
                | Inr b \<Rightarrow> Inr b)))"
  by (simp add: allowed_def get_parser_def split: sum.splits)

lemma sample_rootsite: "rootsite valid_host ''http://a.example/x'' = Inr ''http://a.example''"
  by code_simp

lemma sample_robots_url:
  "urlparse valid_host ''http://a.example/robots.txt'' =
     Inr \<lparr>pr_scheme = ''http'', pr_netloc = ''a.example'', pr_path = ''/robots.txt'',
          pr_params = [], pr_query = [], pr_fragment = []\<rparr>"
  by code_simp

text \<open>
  Claim C1 does not hold of the code. When \<open>robots.txt\<close> cannot be fetched (a network error,
  a status outside 400 to 499, or 401 or 403) or cannot be decoded, \<open>read\<close> leaves
  \<open>last_checked\<close> at 0 or sets \<open>disallow_all\<close>, and \<open>can_fetch\<close> answers \<open>False\<close> without raising:
  the \<open>except\<close> branch of \<open>allowed\<close> that would give \<open>True\<close> is never taken, and \<open>allowed\<close>
  returns \<open>False\<close>. For no url does it return \<open>True\<close> then. Only a status from 400 to 499
  other than 401 and 403 gives \<open>True\<close>. \<open>crawl_delay\<close> does return \<open>None\<close> in all these cases.
\<close>

theorem robots_unreadable_disallows:
  "allowed valid_host (\<lambda>u. Unreachable) quoted ua ''http://a.example/x'' = Inr False \<and>
   allowed valid_host (\<lambda>u. Status 503) quoted ua ''http://a.example/x'' = Inr False \<and>
   allowed valid_host (\<lambda>u. Status 403) quoted ua ''http://a.example/x'' = Inr False \<and>
   allowed valid_host (\<lambda>u. Undecodable) quoted ua ''http://a.example/x'' = Inr False \<and>
   allowed valid_host (\<lambda>u. Status 404) quoted ua ''http://a.example/x'' = Inr True \<and>
   allowed valid_host (\<lambda>u. Unreachable) quoted ua url \<noteq> Inr True \<and>
   allowed valid_host (\<lambda>u. Status 503) quoted ua url \<noteq> Inr True \<and>
   allowed valid_host (\<lambda>u. Status 403) quoted ua url \<noteq> Inr True \<and>
   allowed valid_host (\<lambda>u. Undecodable) quoted ua url \<noteq> Inr True \<and>
   crawl_delay valid_host (\<lambda>u. Unreachable) ua ''http://a.example/x'' = Inr None \<and>
   crawl_delay valid_host (\<lambda>u. Status 503) ua ''http://a.example/x'' = Inr None \<and>
   crawl_delay valid_host (\<lambda>u. Undecodable) ua ''http://a.example/x'' = Inr None"
proof -
  have ex: "\<And>got. allowed valid_host (\<lambda>u. got) quoted ua ''http://a.example/x'' =
               (case can_fetch quoted (fst (read got new_parser)) ua ''http://a.example/x'' of
                  Inl e \<Rightarrow> Inr True
                | Inr b \<Rightarrow> Inr b)"
    by (simp add: allowed_const sample_rootsite sample_robots_url)
  have cd: "\<And>got. crawl_delay valid_host (\<lambda>u. got) ua ''http://a.example/x'' =
               Inr (rp_crawl_delay (fst (read got new_parser)) ua)"
    by (simp add: crawl_delay_def get_parser_def sample_rootsite sample_robots_url)
  have a1: "allowed valid_host (\<lambda>u. Unreachable) quoted ua ''http://a.example/x'' = Inr False"
    by (simp add: ex read_unreachable can_fetch_unread)
  have a2: "allowed valid_host (\<lambda>u. Status 503) quoted ua ''http://a.example/x'' = Inr False"
    by (simp add: ex can_fetch_status)
  have a3: "allowed valid_host (\<lambda>u. Status 403) quoted ua ''http://a.example/x'' = Inr False"
    by (simp add: ex can_fetch_status)
  have a4: "allowed valid_host (\<lambda>u. Undecodable) quoted ua ''http://a.example/x'' = Inr False"
    by (simp add: ex read_undecodable can_fetch_unread)
  have a5: "allowed valid_host (\<lambda>u. Status 404) quoted ua ''http://a.example/x'' = Inr True"
    by (simp add: ex can_fetch_status)
  have g1: "allowed valid_host (\<lambda>u. Unreachable) quoted ua url \<noteq> Inr True"
    by (simp add: allowed_const read_unreachable can_fetch_unread split: sum.splits)
  have g2: "allowed valid_host (\<lambda>u. Status 503) quoted ua url \<noteq> Inr True"
    by (simp add: allowed_const can_fetch_status split: sum.splits)
  have g3: "allowed valid_host (\<lambda>u. Status 403) quoted ua url \<noteq> Inr True"
    by (simp add: allowed_const can_fetch_status split: sum.splits)
  have g4: "allowed valid_host (\<lambda>u. Undecodable) quoted ua url \<noteq> Inr True"
    by (simp add: allowed_const read_undecodable can_fetch_unread split: sum.splits)
  have c1: "crawl_delay valid_host (\<lambda>u. Unreachable) ua ''http://a.example/x'' = Inr None"
    by (simp add: cd crawl_delay_unread)
  have c2: "crawl_delay valid_host (\<lambda>u. Status 503) ua ''http://a.example/x'' = Inr None"
    by (simp add: cd crawl_delay_unread)
  have c3: "crawl_delay valid_host (\<lambda>u. Undecodable) ua ''http://a.example/x'' = Inr None"
    by (simp add: cd crawl_delay_unread)
  from a1 a2 a3 a4 a5 g1 g2 g3 g4 c1 c2 c3 show ?thesis
    by blast
qed

section \<open>Lexicon builders (src/classify/reuters_build_lexicon.py, src/ml/tfidf_Lexicon_Classifier.py)\<close>

text \<open>
  A Python \<open>dict\<close> is the list of its items in insertion order. \<open>dict_set\<close> is \<open>d[k] = v\<close>;
  \<open>dict_append\<close> is \<open>d[k].append(x)\<close> on a \<open>defaultdict(list)\<close>.
\<close>

fun dict_set :: "'k \<Rightarrow> 'v \<Rightarrow> ('k \<times> 'v) list \<Rightarrow> ('k \<times> 'v) list" where
  "dict_set k v [] = [(k, v)]"
| "dict_set k v ((k', v') # d) = (if k' = k then (k', v) # d else (k', v') # dict_set k v d)"

fun dict_append :: "'k \<Rightarrow> 'a \<Rightarrow> ('k \<times> 'a list) list \<Rightarrow> ('k \<times> 'a list) list" where
  "dict_append k x [] = [(k, [x])]"
| "dict_append k x ((k', l) # d) =
     (if k' = k then (k', l @ [x]) # d else (k', l) # dict_append k x d)"

text \<open>
  The TF-IDF matrix is a function from the document index and the term index to the weight;
  it has one row for every text and one column for every term of the vocabulary.
  \<open>M.mean(axis=0)\<close> over the rows \<open>idxs\<close> is the list of the column means.
\<close>

definition centroid :: "(nat \<Rightarrow> nat \<Rightarrow> real) \<Rightarrow> nat \<Rightarrow> nat list \<Rightarrow> real list" where
  "centroid X V idxs =
     map (\<lambda>j. sum_list (map (\<lambda>i. X i j) idxs) / real (length idxs)) [0..<V]"

text \<open>The slice \<open>xs[:k]\<close>; a negative \<open>k\<close> counts from the end.\<close>

definition py_take :: "int \<Rightarrow> 'a list \<Rightarrow> 'a list" where
  "py_take k xs = (if k \<ge> 0 then take (nat k) xs else take (length xs - nat (- k)) xs)"

subsection \<open>build_lexicon\<close>

text \<open>
  \<open>cat_docs\<close>: for every document \<open>i\<close> and every label \<open>c\<close> in its list, \<open>i\<close> is appended to the
  list of \<open>c\<close>. A label that a document carries twice gets the document twice.
\<close>

definition cat_docs :: "string list list \<Rightarrow> (string \<times> nat list) list" where
  "cat_docs labels =
     foldl (\<lambda>d (i, c). dict_append c i d) []
       (concat (map (\<lambda>(i, labs). map (\<lambda>c. (i, c)) labs) (enumerate 0 labels)))"

text \<open>
  The terms of one category: \<open>np.argsort(centroid)[::-1][:top_k]\<close>, and of these indices the
  ones with a positive mean. \<open>argsort\<close> stands for \<open>np.argsort\<close>, which returns the indices in
  ascending order of the values and leaves the order of equal values open.
\<close>

definition category_terms ::
  "(real list \<Rightarrow> nat list) \<Rightarrow> string list \<Rightarrow> int \<Rightarrow> real list \<Rightarrow> (string \<times> real) list" where
  "category_terms argsort vocab top_k cen =
     (let top_idx = py_take top_k (rev (argsort cen))
      in map (\<lambda>i. (vocab ! i, cen ! i)) (filter (\<lambda>i. cen ! i > 0) top_idx))"

text \<open>One pass of the loop over \<open>cat_docs.items()\<close>.\<close>

definition lexicon_step ::
  "(real list \<Rightarrow> nat list) \<Rightarrow> (nat \<Rightarrow> nat \<Rightarrow> real) \<Rightarrow> string list \<Rightarrow> int \<Rightarrow>
   string \<times> nat list \<Rightarrow> (string \<times> (string \<times> real) list) list \<Rightarrow>
   (string \<times> (string \<times> real) list) list" where
  "lexicon_step argsort X vocab top_k item lexicon =
     (case item of (c, idxs) \<Rightarrow>
        if length idxs < 5 then lexicon
        else
          (let cen = centroid X (length vocab) idxs
           in if sum_list cen = 0 then lexicon
              else
                (let terms = category_terms argsort vocab top_k cen
                 in if terms \<noteq> [] then dict_set c terms lexicon else lexicon)))"

text \<open>
  \<open>build_lexicon\<close>. \<open>tfidf min_df english texts\<close> stands for the \<open>TfidfVectorizer\<close>: it gives
  the vocabulary and the matrix, or raises (\<open>ValueError\<close> for an empty vocabulary, which the
  function raises again with another message).
\<close>

definition build_lexicon ::
  "(int \<Rightarrow> bool \<Rightarrow> string list \<Rightarrow> py_error + string list \<times> (nat \<Rightarrow> nat \<Rightarrow> real)) \<Rightarrow>
   (real list \<Rightarrow> nat list) \<Rightarrow> string list \<Rightarrow> string list list \<Rightarrow> int \<Rightarrow> int \<Rightarrow> string \<Rightarrow>
   py_error + (string \<times> (string \<times> real) list) list \<times> string list" where
  "build_lexicon tfidf argsort texts labels top_k min_df stop_words =
     (if length texts \<noteq> length labels then Inl ValueError
      else if stop_words \<noteq> ''none'' \<and> stop_words \<noteq> ''english'' then Inl ValueError
      else
        (case tfidf min_df (stop_words = ''english'') texts of
           Inl e \<Rightarrow> Inl e
         | Inr (vocab, X) \<Rightarrow>
             (let lexicon = foldl (\<lambda>acc item. lexicon_step argsort X vocab top_k item acc) []
                              (cat_docs labels)
              in if lexicon = [] then Inl ValueError else Inr (lexicon, vocab))))"

subsection \<open>build_lexicons\<close>

text \<open>
  \<open>build_lexicons(X, y, vocab, topk)\<close>; \<open>X\<close> has one column for every term of \<open>vocab\<close>, as in
  \<open>run_reuters_pipeline\<close>. \<open>argpartition\<close> stands for \<open>np.argpartition\<close>, which raises when
  \<open>topk\<close> is out of range. No test on the number of documents of a label is made.
\<close>

definition class_pairs ::
  "(real list \<Rightarrow> int \<Rightarrow> py_error + nat list) \<Rightarrow> string list \<Rightarrow> int \<Rightarrow> real list \<Rightarrow>
   py_error + (string \<times> real) list" where
  "class_pairs argpartition vocab topk arr =
     (case (if int (length arr) > topk
            then (case argpartition (map uminus arr) topk of
                    Inl e \<Rightarrow> Inl e
                  | Inr p \<Rightarrow> Inr (py_take topk p))
            else Inr (filter (\<lambda>i. arr ! i > 0) [0..<length arr])) of
        Inl e \<Rightarrow> Inl e
      | Inr top_idx \<Rightarrow>
          Inr (sort_key (\<lambda>kv. - snd kv)
                 (foldl (\<lambda>d i. dict_set (vocab ! i) (arr ! i) d) []
                    (filter (\<lambda>i. arr ! i > 0) top_idx))))"

fun lexicons_loop ::
  "(real list \<Rightarrow> int \<Rightarrow> py_error + nat list) \<Rightarrow> (nat \<Rightarrow> nat \<Rightarrow> real) \<Rightarrow> string list \<Rightarrow>
   string list \<Rightarrow> int \<Rightarrow> string list \<Rightarrow> (string \<times> (string \<times> real) list) list \<Rightarrow>
   py_error + (string \<times> (string \<times> real) list) list" where
  "lexicons_loop argpartition X y vocab topk [] lexicons = Inr lexicons"
| "lexicons_loop argpartition X y vocab topk (lab # labs) lexicons =
     (let idx = filter (\<lambda>i. y ! i = lab) [0..<length y]
      in if length idx = 0 then lexicons_loop argpartition X y vocab topk labs lexicons
         else
           (case class_pairs argpartition vocab topk (centroid X (length vocab) idx) of
              Inl e \<Rightarrow> Inl e
            | Inr pairs \<Rightarrow>
                lexicons_loop argpartition X y vocab topk labs (dict_set lab pairs lexicons)))"

text \<open>\<open>sorted(set(y))\<close> orders the labels by their code points.\<close>

definition build_lexicons ::
  "(real list \<Rightarrow> int \<Rightarrow> py_error + nat list) \<Rightarrow> (nat \<Rightarrow> nat \<Rightarrow> real) \<Rightarrow> string list \<Rightarrow>
   string list \<Rightarrow> int \<Rightarrow> py_error + (string \<times> (string \<times> real) list) list" where
  "build_lexicons argpartition X y vocab topk =
     lexicons_loop argpartition X y vocab topk (sort_key ustr_of (remdups y)) []"

subsection \<open>Counting the documents of a category\<close>

text \<open>
  \<open>label_count\<close> is what \<open>len(idxs)\<close> is in \<open>build_lexicon\<close>: how often the label stands in the
  label lists. \<open>member_docs\<close> is the number of documents that carry the label. \<open>docs_of\<close> is
  the list \<open>cat_docs[c]\<close>.
\<close>

definition label_count :: "string \<Rightarrow> string list list \<Rightarrow> nat" where
  "label_count c labels = length (filter (\<lambda>x. x = c) (concat labels))"

definition member_docs :: "string \<Rightarrow> string list list \<Rightarrow> nat" where
  "member_docs c labels = length (filter (\<lambda>labs. c \<in> set labs) labels)"

definition docs_of :: "string \<Rightarrow> string list list \<Rightarrow> nat list" where
  "docs_of c labels = (case map_of (cat_docs labels) c of None \<Rightarrow> [] | Some l \<Rightarrow> l)"

text \<open>What \<open>np.argsort\<close> promises of its result \<open>p\<close> for the values \<open>cen\<close>.\<close>

definition is_argsort :: "nat list \<Rightarrow> real list \<Rightarrow> bool" where
  "is_argsort p cen \<longleftrightarrow> mset p = mset [0..<length cen] \<and> sorted (map (\<lambda>i. cen ! i) p)"

definition stable_argsort :: "real list \<Rightarrow> nat list" where
  "stable_argsort cen = sort_key (\<lambda>i. cen ! i) [0..<length cen]"


subsection \<open>Facts about the builders\<close>

lemma dict_set_keys: "fst ` set (dict_set k v d) = insert k (fst ` set d)"
  by (induction k v d rule: dict_set.induct) (simp_all add: insert_commute)

lemma dict_append_keys: "fst ` set (dict_append k x d) = insert k (fst ` set d)"
  by (induction k x d rule: dict_append.induct) (simp_all add: insert_commute)

lemma dict_append_distinct: "distinct (map fst d) \<Longrightarrow> distinct (map fst (dict_append k x d))"
proof (induction d)
  case Nil
  then show ?case by simp
next
  case (Cons a d)
  obtain k' l where a: "a = (k', l)" by (cases a)
  have "fst ` set (dict_append k x d) = insert k (fst ` set d)" by (rule dict_append_keys)
  with Cons a show ?case by (auto simp: image_iff)
qed

lemma dict_append_map_of:
  "map_of (dict_append k x d) c =
     (if c = k then Some ((case map_of d k of None \<Rightarrow> [] | Some l \<Rightarrow> l) @ [x]) else map_of d c)"
  by (induction k x d rule: dict_append.induct) auto

lemma dict_append_lookup:
  "(case map_of (dict_append k x d) c of None \<Rightarrow> [] | Some l \<Rightarrow> l) =
     (case map_of d c of None \<Rightarrow> [] | Some l \<Rightarrow> l) @ (if c = k then [x] else [])"
  by (simp add: dict_append_map_of)

lemma cat_fold:
  "distinct (map fst d) \<Longrightarrow>
   distinct (map fst (foldl (\<lambda>d (i, c). dict_append c i d) d ps)) \<and>
   fst ` set (foldl (\<lambda>d (i, c). dict_append c i d) d ps) = fst ` set d \<union> snd ` set ps \<and>
   (case map_of (foldl (\<lambda>d (i, c). dict_append c i d) d ps) c of None \<Rightarrow> [] | Some l \<Rightarrow> l) =
     (case map_of d c of None \<Rightarrow> [] | Some l \<Rightarrow> l) @ map fst (filter (\<lambda>p. snd p = c) ps)"
proof (induction ps arbitrary: d)
  case Nil
  then show ?case by simp
next
  case (Cons p ps)
  obtain i k where p: "p = (i, k)" by (cases p)
  have dd: "distinct (map fst (dict_append k i d))"
    using Cons.prems by (rule dict_append_distinct)
  from Cons.IH [OF dd] show ?case
    by (auto simp: p dict_append_keys dict_append_lookup)
qed

lemma label_pairs:
  "map snd (concat (map (\<lambda>(i, labs). map (\<lambda>c. (i, c)) labs) (enumerate n labels))) = concat labels"
  by (induction labels arbitrary: n) (simp_all add: comp_def)

lemma length_filter_snd:
  "length (filter (\<lambda>p. snd p = c) ps) = length (filter (\<lambda>x. x = c) (map snd ps))"
  by (induction ps) auto

lemma cat_docs_distinct: "distinct (map fst (cat_docs labels))"
  using cat_fold [of "[]" "concat (map (\<lambda>(i, labs). map (\<lambda>c. (i, c)) labs) (enumerate 0 labels))" "[]"]
  by (simp add: cat_docs_def)

lemma docs_of_length: "length (docs_of c labels) = label_count c labels"
proof -
  let ?ps = "concat (map (\<lambda>(i, labs). map (\<lambda>c. (i, c)) labs) (enumerate 0 labels))"
  have "docs_of c labels = map fst (filter (\<lambda>p. snd p = c) ?ps)"
    using cat_fold [of "[]" ?ps c] by (simp add: docs_of_def cat_docs_def)
  then have "length (docs_of c labels) = length (filter (\<lambda>x. x = c) (map snd ?ps))"
    by (simp add: length_filter_snd)
  then show ?thesis by (simp add: label_pairs label_count_def)
qed

lemma cat_docs_item: "(c, idxs) \<in> set (cat_docs labels) \<Longrightarrow> idxs = docs_of c labels"
  using cat_docs_distinct [of labels] by (simp add: docs_of_def)

lemma cat_docs_has:
  assumes "0 < label_count c labels"
  shows "(c, docs_of c labels) \<in> set (cat_docs labels)"
proof -
  from assms have "docs_of c labels \<noteq> []"
    using docs_of_length [of c labels] by auto
  then obtain l where "map_of (cat_docs labels) c = Some l" and "l = docs_of c labels"
    by (auto simp: docs_of_def split: option.splits)
  then show ?thesis by (auto dest: map_of_SomeD)
qed

lemma count_distinct: "distinct labs \<Longrightarrow> length (filter (\<lambda>x. x = c) labs) = (if c \<in> set labs then 1 else 0)"
  by (induction labs) auto

lemma label_count_member:
  "(\<forall>labs \<in> set labels. distinct labs) \<Longrightarrow> label_count c labels = member_docs c labels"
  by (induction labels) (auto simp: label_count_def member_docs_def count_distinct)

text \<open>The passes of the loop add keys only, and a pass adds the key of its item exactly when
  the item passes the three tests.\<close>

definition passes ::
  "(real list \<Rightarrow> nat list) \<Rightarrow> (nat \<Rightarrow> nat \<Rightarrow> real) \<Rightarrow> string list \<Rightarrow> int \<Rightarrow> nat list \<Rightarrow> bool" where
  "passes argsort X vocab top_k idxs \<longleftrightarrow>
     \<not> length idxs < 5 \<and> sum_list (centroid X (length vocab) idxs) \<noteq> 0 \<and>
     category_terms argsort vocab top_k (centroid X (length vocab) idxs) \<noteq> []"

lemma lexicon_step_keys:
  "fst ` set (lexicon_step argsort X vocab top_k (c, idxs) acc) =
     (if passes argsort X vocab top_k idxs then insert c (fst ` set acc) else fst ` set acc)"
  by (simp add: lexicon_step_def passes_def Let_def dict_set_keys)

lemma lexicon_fold_keys:
  "fst ` set (foldl (\<lambda>acc item. lexicon_step argsort X vocab top_k item acc) acc items) =
     fst ` set acc \<union> {c. \<exists>idxs. (c, idxs) \<in> set items \<and> passes argsort X vocab top_k idxs}"
proof (induction items arbitrary: acc)
  case Nil
  then show ?case by simp
next
  case (Cons item items)
  obtain c idxs where item: "item = (c, idxs)" by (cases item)
  show ?case
    unfolding foldl_Cons Cons.IH item lexicon_step_keys by auto
qed

text \<open>The last index of an ascending argsort carries the greatest value.\<close>

lemma argsort_last_max:
  assumes a: "is_argsort p cen" and i: "i < length cen"
  shows "p \<noteq> [] \<and> last p < length cen \<and> cen ! i \<le> cen ! last p"
proof -
  from a have m: "mset p = mset [0..<length cen]" and s: "sorted (map (\<lambda>i. cen ! i) p)"
    by (simp_all add: is_argsort_def)
  from m have st: "set p = {0..<length cen}"
    by (metis mset_eq_setD set_upt)
  with i have ne: "p \<noteq> []" by auto
  from st i have "i \<in> set p" by simp
  then obtain n where n: "n < length p" "p ! n = i"
    by (auto simp: in_set_conv_nth)
  have "map (\<lambda>i. cen ! i) p ! n \<le> map (\<lambda>i. cen ! i) p ! (length p - 1)"
    using s n(1) by (intro sorted_nth_mono) auto
  with n ne have "cen ! i \<le> cen ! last p"
    by (simp add: last_conv_nth)
  moreover from ne st have "last p < length cen"
    using last_in_set [OF ne] by auto
  ultimately show ?thesis using ne by simp
qed

lemma nonneg_sum_pos:
  "(\<forall>x \<in> set xs. (0::real) \<le> x) \<Longrightarrow> sum_list xs \<noteq> 0 \<Longrightarrow> \<exists>i < length xs. 0 < xs ! i"
proof (induction xs)
  case Nil
  then show ?case by simp
next
  case (Cons x xs)
  show ?case
  proof (cases "0 < x")
    case True
    then show ?thesis by (intro exI [of _ 0]) simp
  next
    case False
    with Cons.prems have "x = 0" by simp
    with Cons obtain i where "i < length xs" "0 < xs ! i" by auto
    then show ?thesis by (intro exI [of _ "Suc i"]) simp
  qed
qed

lemma category_terms_nonempty:
  assumes a: "is_argsort (argsort cen) cen" and nn: "\<forall>x \<in> set cen. 0 \<le> x"
    and s: "sum_list cen \<noteq> 0" and k: "1 \<le> top_k"
  shows "category_terms argsort vocab top_k cen \<noteq> []"
proof -
  from nonneg_sum_pos [OF nn s] obtain i where i: "i < length cen" "0 < cen ! i" by auto
  from argsort_last_max [OF a i(1)]
  have ne: "argsort cen \<noteq> []" and mx: "cen ! i \<le> cen ! last (argsort cen)" by simp_all
  from ne have "argsort cen = butlast (argsort cen) @ [last (argsort cen)]"
    by simp
  then have "rev (argsort cen) = rev (butlast (argsort cen) @ [last (argsort cen)])"
    by simp
  then have r: "rev (argsort cen) = last (argsort cen) # rev (butlast (argsort cen))"
    by simp
  from k obtain m where m: "nat top_k = Suc m"
    by (cases "nat top_k") auto
  have "py_take top_k (rev (argsort cen)) = take (Suc m) (rev (argsort cen))"
    using k by (simp add: py_take_def m)
  also have "\<dots> = last (argsort cen) # take m (rev (butlast (argsort cen)))"
    by (subst r) simp
  finally have "py_take top_k (rev (argsort cen)) =
               last (argsort cen) # take m (rev (butlast (argsort cen)))" .
  moreover have "0 < cen ! last (argsort cen)" using i(2) mx by simp
  ultimately show ?thesis by (simp add: category_terms_def)
qed

lemma build_lexicon_keys:
  assumes "build_lexicon tfidf argsort texts labels top_k min_df stop_words = Inr (lexicon, vocab)"
  shows "\<exists>X. tfidf min_df (stop_words = ''english'') texts = Inr (vocab, X) \<and>
             fst ` set lexicon =
               {c. \<exists>idxs. (c, idxs) \<in> set (cat_docs labels) \<and> passes argsort X vocab top_k idxs}"
proof -
  from assms obtain X where t: "tfidf min_df (stop_words = ''english'') texts = Inr (vocab, X)"
    and l: "lexicon = foldl (\<lambda>acc item. lexicon_step argsort X vocab top_k item acc) []
                        (cat_docs labels)"
    by (auto simp: build_lexicon_def Let_def split: if_splits sum.splits prod.splits)
  show ?thesis
    using t unfolding l lexicon_fold_keys by simp
qed

lemma lexicons_loop_keys:
  "set labs \<subseteq> set y \<Longrightarrow> lexicons_loop argpartition X y vocab topk labs acc = Inr lexicons \<Longrightarrow>
   fst ` set lexicons = fst ` set acc \<union> set labs"
proof (induction labs arbitrary: acc)
  case Nil
  then show ?case by simp
next
  case (Cons lab labs)
  from Cons.prems(1) have "lab \<in> set y" by simp
  then obtain i where "i < length y" "y ! i = lab" by (auto simp: in_set_conv_nth)
  then have ne: "filter (\<lambda>i. y ! i = lab) [0..<length y] \<noteq> []"
    by (auto simp: filter_empty_conv)
  from Cons.prems(2) ne obtain pairs where
    r: "lexicons_loop argpartition X y vocab topk labs (dict_set lab pairs acc) = Inr lexicons"
    by (auto simp: Let_def split: sum.splits)
  from Cons.prems(1) have "set labs \<subseteq> set y" by simp
  from Cons.IH [OF this r] show ?case by (simp add: dict_set_keys)
qed

lemma stable_argsort_ok: "is_argsort (stable_argsort cen) cen"
  by (simp add: is_argsort_def stable_argsort_def)

lemma build_lexicon_has:
  assumes len: "length texts = length labels"
    and sw: "stop_words = ''none'' \<or> stop_words = ''english''"
    and t: "tfidf min_df (stop_words = ''english'') texts = Inr (vocab, X)"
    and n: "5 \<le> label_count c labels"
    and s: "sum_list (centroid X (length vocab) (docs_of c labels)) \<noteq> 0"
    and nn: "\<forall>x \<in> set (centroid X (length vocab) (docs_of c labels)). 0 \<le> x"
    and k: "1 \<le> top_k"
    and a: "is_argsort (argsort (centroid X (length vocab) (docs_of c labels)))
              (centroid X (length vocab) (docs_of c labels))"
  shows "\<exists>lexicon. build_lexicon tfidf argsort texts labels top_k min_df stop_words =
                      Inr (lexicon, vocab) \<and> c \<in> fst ` set lexicon"
proof -
  let ?lexicon = "foldl (\<lambda>acc item. lexicon_step argsort X vocab top_k item acc) []
                    (cat_docs labels)"
  from n have item: "(c, docs_of c labels) \<in> set (cat_docs labels)"
    by (intro cat_docs_has) simp
  have "passes argsort X vocab top_k (docs_of c labels)"
    using n s category_terms_nonempty
            [where argsort = argsort and cen = "centroid X (length vocab) (docs_of c labels)",
             OF a nn s k]
    by (simp add: passes_def docs_of_length)
  with item have c: "c \<in> fst ` set ?lexicon"
    unfolding lexicon_fold_keys by auto
  then have "?lexicon \<noteq> []" by auto
  then have "build_lexicon tfidf argsort texts labels top_k min_df stop_words =
               Inr (?lexicon, vocab)"
    using len sw t by (auto simp: build_lexicon_def Let_def)
  with c show ?thesis by blast
qed

lemma build_lexicon_only:
  assumes b: "build_lexicon tfidf argsort texts labels top_k min_df stop_words = Inr (lexicon, vocab)"
    and c: "c \<in> fst ` set lexicon"
  shows "5 \<le> label_count c labels"
proof -
  from build_lexicon_keys [OF b] obtain X where
    k: "fst ` set lexicon =
          {c. \<exists>idxs. (c, idxs) \<in> set (cat_docs labels) \<and> passes argsort X vocab top_k idxs}"
    by blast
  from c have "c \<in> {c. \<exists>idxs. (c, idxs) \<in> set (cat_docs labels) \<and> passes argsort X vocab top_k idxs}"
    unfolding k .
  then obtain idxs where
    i: "(c, idxs) \<in> set (cat_docs labels)" and p: "passes argsort X vocab top_k idxs"
    by blast
  from cat_docs_item [OF i] have "length idxs = label_count c labels"
    by (simp add: docs_of_length)
  with p show ?thesis by (simp add: passes_def)
qed

text \<open>
  Claim C8, as the code has it. In \<open>build_lexicon\<close> a category is in the lexicon only if its
  label stands at least 5 times in the label lists, which is the number of its documents
  when no document carries a label twice; so a category with fewer than 5 documents is
  not in the lexicon then. A category whose label stands at least 5 times is in the
  lexicon when its centroid has no negative entry and a sum other than 0, \<open>top_k\<close> is at
  least 1 and \<open>np.argsort\<close> sorts. \<open>build_lexicons\<close> makes no such test: every label of \<open>y\<close> is
  in its result.
\<close>

theorem lexicon_category_filter:
  "(build_lexicon tfidf argsort texts labels top_k min_df stop_words = Inr (lexicon, vocab) \<and>
    c \<in> fst ` set lexicon \<longrightarrow> 5 \<le> label_count c labels) \<and>
   ((\<forall>labs \<in> set labels. distinct labs) \<longrightarrow> label_count c labels = member_docs c labels) \<and>
   (build_lexicon tfidf argsort texts labels top_k min_df stop_words = Inr (lexicon, vocab) \<and>
    (\<forall>labs \<in> set labels. distinct labs) \<and> member_docs c labels < 5 \<longrightarrow>
      c \<notin> fst ` set lexicon) \<and>
   (length texts = length labels \<and> (stop_words = ''none'' \<or> stop_words = ''english'') \<and>
    tfidf min_df (stop_words = ''english'') texts = Inr (vocab, X) \<and>
    5 \<le> label_count c labels \<and>
    sum_list (centroid X (length vocab) (docs_of c labels)) \<noteq> 0 \<and>
    (\<forall>x \<in> set (centroid X (length vocab) (docs_of c labels)). 0 \<le> x) \<and>
    1 \<le> top_k \<and>
    is_argsort (argsort (centroid X (length vocab) (docs_of c labels)))
      (centroid X (length vocab) (docs_of c labels)) \<longrightarrow>
    (\<exists>lexicon'. build_lexicon tfidf argsort texts labels top_k min_df stop_words =
                   Inr (lexicon', vocab) \<and> c \<in> fst ` set lexicon')) \<and>
   (build_lexicons argpartition X' y vocab' topk = Inr lexicons \<longrightarrow> fst ` set lexicons = set y)"
proof (intro conjI impI)
  assume "build_lexicon tfidf argsort texts labels top_k min_df stop_words = Inr (lexicon, vocab) \<and>
    c \<in> fst ` set lexicon"
  then show "5 \<le> label_count c labels"
    using build_lexicon_only [of tfidf argsort texts labels top_k min_df stop_words lexicon vocab c]
    by simp
next
  assume "\<forall>labs \<in> set labels. distinct labs"
  then show "label_count c labels = member_docs c labels"
    by (rule label_count_member)
next
  assume a: "build_lexicon tfidf argsort texts labels top_k min_df stop_words = Inr (lexicon, vocab) \<and>
    (\<forall>labs \<in> set labels. distinct labs) \<and> member_docs c labels < 5"
  then have m: "label_count c labels < 5"
    using label_count_member [of labels c] by simp
  show "c \<notin> fst ` set lexicon"
  proof
    assume "c \<in> fst ` set lexicon"
    with a have "5 \<le> label_count c labels"
      using build_lexicon_only [of tfidf argsort texts labels top_k min_df stop_words lexicon vocab c]
      by simp
    with m show False by simp
  qed
next
  assume a: "length texts = length labels \<and> (stop_words = ''none'' \<or> stop_words = ''english'') \<and>
    tfidf min_df (stop_words = ''english'') texts = Inr (vocab, X) \<and>
    5 \<le> label_count c labels \<and>
    sum_list (centroid X (length vocab) (docs_of c labels)) \<noteq> 0 \<and>
    (\<forall>x \<in> set (centroid X (length vocab) (docs_of c labels)). 0 \<le> x) \<and>
    1 \<le> top_k \<and>
    is_argsort (argsort (centroid X (length vocab) (docs_of c labels)))
      (centroid X (length vocab) (docs_of c labels))"
  from a have len: "length texts = length labels" by (rule conjunct1)
  from a have sw: "stop_words = ''none'' \<or> stop_words = ''english''" by blast
  from a have t: "tfidf min_df (stop_words = ''english'') texts = Inr (vocab, X)" by blast
  from a have n: "5 \<le> label_count c labels" by blast
  from a have s: "sum_list (centroid X (length vocab) (docs_of c labels)) \<noteq> 0" by blast
  from a have nn: "\<forall>x \<in> set (centroid X (length vocab) (docs_of c labels)). 0 \<le> x" by blast
  from a have k: "1 \<le> top_k" by blast
  from a have g: "is_argsort (argsort (centroid X (length vocab) (docs_of c labels)))
      (centroid X (length vocab) (docs_of c labels))" by blast
  from len sw t n s nn k g
  show "\<exists>lexicon'. build_lexicon tfidf argsort texts labels top_k min_df stop_words =
                   Inr (lexicon', vocab) \<and> c \<in> fst ` set lexicon'"
    by (rule build_lexicon_has)
next
  assume b: "build_lexicons argpartition X' y vocab' topk = Inr lexicons"
  have "set (sort_key ustr_of (remdups y)) \<subseteq> set y" by simp
  from lexicons_loop_keys [OF this b [unfolded build_lexicons_def]]
  show "fst ` set lexicons = set y" by simp
qed


text \<open>
  A run of \<open>build_lexicon\<close> on five documents labelled \<open>grain\<close>, with a vocabulary of one term of
  weight 1/2 in every document, and a run of \<open>build_lexicons\<close> on four documents labelled
  \<open>oil\<close>.
\<close>

definition grain_labels :: "string list list" where
  "grain_labels = [[''grain''], [''grain''], [''grain''], [''grain''], [''grain'']]"

definition grain_texts :: "string list" where
  "grain_texts = [''wheat a'', ''wheat b'', ''wheat c'', ''wheat d'', ''wheat e'']"

definition grain_tfidf :: "int \<Rightarrow> bool \<Rightarrow> string list \<Rightarrow> py_error + string list \<times> (nat \<Rightarrow> nat \<Rightarrow> real)" where
  "grain_tfidf min_df english texts = Inr ([''wheat''], \<lambda>i j. 1 / 2)"

definition oil_labels :: "string list" where
  "oil_labels = [''oil'', ''oil'', ''oil'', ''oil'']"

theorem lexicon_category_filter_witness:
  "build_lexicon grain_tfidf stable_argsort grain_texts grain_labels 200 1 ''none'' =
     Inr ([(''grain'', [(''wheat'', 1 / 2)])], [''wheat'']) \<and>
   label_count ''grain'' grain_labels = 5 \<and>
   member_docs ''grain'' grain_labels = 5 \<and>
   member_docs ''oil'' grain_labels = 0 \<and>
   ''oil'' \<notin> fst ` set [(''grain'', [(''wheat'', 1 / 2 :: real)])] \<and>
   centroid (\<lambda>i j. 1 / 2) 1 (docs_of ''grain'' grain_labels) = [1 / 2] \<and>
   build_lexicons (\<lambda>a k. Inl ValueError) (\<lambda>i j. 1) oil_labels [''oil''] 500 =
     Inr [(''oil'', [(''oil'', 1)])] \<and>
   fst ` set [(''oil'', [(''oil'', 1 :: real)])] = set oil_labels"
proof -
  have d: "docs_of ''grain'' grain_labels = [0, 1, 2, 3, 4]"
    by (simp add: docs_of_def cat_docs_def grain_labels_def enumerate_eq_zip upt_rec)
  have cen: "centroid (\<lambda>i j. 1 / 2) (length [''wheat'']) (docs_of ''grain'' grain_labels) = [1 / 2]"
    by (simp add: d centroid_def)
  have lc: "label_count ''grain'' grain_labels = 5"
    by (simp add: label_count_def grain_labels_def)
  have md: "member_docs ''grain'' grain_labels = 5"
    by (simp add: member_docs_def grain_labels_def)
  have mo: "member_docs ''oil'' grain_labels = 0"
    by (simp add: member_docs_def grain_labels_def)
  have dl: "\<forall>labs \<in> set grain_labels. distinct labs"
    by (simp add: grain_labels_def)
  have cd: "cat_docs grain_labels = [(''grain'', [0, 1, 2, 3, 4])]"
    by (simp add: cat_docs_def grain_labels_def enumerate_eq_zip upt_rec)
  have ct: "category_terms stable_argsort [''wheat''] 200 [1 / 2] = [(''wheat'', 1 / 2)]"
    by (simp add: category_terms_def stable_argsort_def py_take_def)
  have b: "build_lexicon grain_tfidf stable_argsort grain_texts grain_labels 200 1 ''none'' =
             Inr ([(''grain'', [(''wheat'', 1 / 2)])], [''wheat''])"
  proof -
    have c5: "centroid (\<lambda>i j. 1 / 2) (length [''wheat'']) [0, 1, 2, 3, 4] = [1 / 2 :: real]"
      using cen by (simp add: d)
    have st: "lexicon_step stable_argsort (\<lambda>i j. 1 / 2) [''wheat''] 200
                (''grain'', [0, 1, 2, 3, 4]) [] = [(''grain'', [(''wheat'', 1 / 2)])]"
      unfolding lexicon_step_def prod.case Let_def c5 ct by simp
    have len: "length grain_texts = length grain_labels"
      by (simp add: grain_texts_def grain_labels_def)
    show ?thesis
      using st by (simp add: build_lexicon_def len grain_tfidf_def cd)
  qed
  have t: "grain_tfidf 1 (''none'' = ''english'') grain_texts = Inr ([''wheat''], \<lambda>i j. 1 / 2)"
    by (simp add: grain_tfidf_def)
  have ol: "build_lexicons (\<lambda>a k. Inl ValueError) (\<lambda>i j. 1) oil_labels [''oil''] 500 =
              Inr [(''oil'', [(''oil'', 1)])]"
    by (simp add: build_lexicons_def oil_labels_def class_pairs_def centroid_def upt_rec)
  from lexicon_category_filter [of grain_tfidf stable_argsort grain_texts grain_labels 200 1
      "''none''" "[(''grain'', [(''wheat'', 1 / 2)])]" "[''wheat'']" "''grain''" "\<lambda>i j. 1 / 2"
      "\<lambda>a k. Inl ValueError" "\<lambda>i j. 1" oil_labels "[''oil'']" 500 "[(''oil'', [(''oil'', 1)])]"]
    lexicon_category_filter [of grain_tfidf stable_argsort grain_texts grain_labels 200 1
      "''none''" "[(''grain'', [(''wheat'', 1 / 2)])]" "[''wheat'']" "''oil''" "\<lambda>i j. 1 / 2"
      "\<lambda>a k. Inl ValueError" "\<lambda>i j. 1" oil_labels "[''oil'']" 500 "[(''oil'', [(''oil'', 1)])]"]
    b lc md mo dl cen ol
  show ?thesis by simp
qed

text \<open>
  Claim C8 as stated fails for \<open>build_lexicons\<close>: a label with four documents is in the
  lexicons it builds.
\<close>

theorem small_class_in_lexicons:
  "length (filter (\<lambda>l. l = ''oil'') oil_labels) = 4 \<and>
   build_lexicons (\<lambda>a k. Inl ValueError) (\<lambda>i j. 1) oil_labels [''oil''] 500 =
     Inr [(''oil'', [(''oil'', 1)])]"
  by (simp add: build_lexicons_def oil_labels_def class_pairs_def centroid_def upt_rec)

end
